theory Spec2Isabelle
  imports Complex_Main
begin

section \<open>The thumbnail LRU cache (src/hooks/use-thumbnail-generator.ts)\<close>

subsection \<open>A JavaScript \<open>Map<string, string>\<close>\<close>

text \<open>
  A JavaScript \<open>Map\<close> iterates its entries in insertion order, and the cache relies on
  that order, so the map is an association list, oldest insertion first. \<open>Map.set\<close> on a
  key that is present replaces the value where the entry stands; on a new key it appends.
\<close>

type_synonym js_map = "(string \<times> string) list"

definition map_has :: "js_map \<Rightarrow> string \<Rightarrow> bool" where
  "map_has m k = (k \<in> set (map fst m))"

definition map_get :: "js_map \<Rightarrow> string \<Rightarrow> string option" where
  "map_get m k = map_of m k"

definition map_delete :: "js_map \<Rightarrow> string \<Rightarrow> js_map" where
  "map_delete m k = filter (\<lambda>e. fst e \<noteq> k) m"

definition map_set :: "js_map \<Rightarrow> string \<Rightarrow> string \<Rightarrow> js_map" where
  "map_set m k v =
     (if map_has m k then map (\<lambda>e. if fst e = k then (k, v) else e) m
      else m @ [(k, v)])"

definition startsWith :: "string \<Rightarrow> string \<Rightarrow> bool" where
  "startsWith s p = (take (length p) s = p)"

subsection \<open>class ThumbnailLRUCache\<close>

text \<open>
  The two private fields of the class, and the list of the URLs handed to
  \<open>URL.revokeObjectURL\<close> so far (the only effect the class has outside itself).
  \<open>maxSize\<close> is a JavaScript number holding an entry count; it is an integer here.
\<close>

record ThumbnailLRUCache =
  cache :: js_map
  maxSize :: int
  revoked :: "string list"

definition MAX_CACHE_SIZE :: int where
  "MAX_CACHE_SIZE = 50"

text \<open>
  The constructor stores its argument and returns. It has no failing path; the result
  type has one all the same, so that a rejection can be stated.
\<close>

datatype cache_error = CacheCapacityInvalid

definition empty_cache :: "int \<Rightarrow> ThumbnailLRUCache" where
  "empty_cache n = \<lparr>cache = [], maxSize = n, revoked = []\<rparr>"

definition new_ThumbnailLRUCache :: "int \<Rightarrow> cache_error + ThumbnailLRUCache" where
  "new_ThumbnailLRUCache n = Inr (empty_cache n)"

text \<open>\<open>get\<close>: a hit deletes the entry and inserts it again, which moves it to the end.\<close>

definition cache_get :: "ThumbnailLRUCache \<Rightarrow> string \<Rightarrow> string option \<times> ThumbnailLRUCache" where
  "cache_get c key =
     (case map_get (cache c) key of
        None \<Rightarrow> (None, c)
      | Some v \<Rightarrow> (Some v, c\<lparr>cache := map_set (map_delete (cache c) key) key v\<rparr>))"

text \<open>
  \<open>set\<close>: delete the key if present; if the size has reached \<open>maxSize\<close>, take the first
  key of the map (\<open>undefined\<close> when the map is empty, and then nothing is evicted), revoke
  its value if that is a blob URL, delete it; insert the new entry.
\<close>

definition cache_set :: "ThumbnailLRUCache \<Rightarrow> string \<Rightarrow> string \<Rightarrow> ThumbnailLRUCache" where
  "cache_set c key v =
     (let m1 = (if map_has (cache c) key then map_delete (cache c) key else cache c);
          c1 = c\<lparr>cache := m1\<rparr>;
          c2 = (if int (length m1) \<ge> maxSize c1 then
                  (case m1 of
                     [] \<Rightarrow> c1
                   | (oldestKey, oldValue) # _ \<Rightarrow>
                       c1\<lparr>cache := map_delete m1 oldestKey,
                          revoked := (if startsWith oldValue ''blob:''
                                      then revoked c1 @ [oldValue] else revoked c1)\<rparr>)
                else c1)
      in c2\<lparr>cache := map_set (cache c2) key v\<rparr>)"

definition cache_has :: "ThumbnailLRUCache \<Rightarrow> string \<Rightarrow> bool" where
  "cache_has c key = map_has (cache c) key"

definition cache_clear :: "ThumbnailLRUCache \<Rightarrow> ThumbnailLRUCache" where
  "cache_clear c =
     c\<lparr>cache := [],
       revoked := revoked c @ filter (\<lambda>v. startsWith v ''blob:'') (map snd (cache c))\<rparr>"

definition cache_size :: "ThumbnailLRUCache \<Rightarrow> int" where
  "cache_size c = int (length (cache c))"

subsection \<open>Sequences of cache operations\<close>

datatype cache_op = Get string | Set string string | Has string | Clear

fun apply_op :: "cache_op \<Rightarrow> ThumbnailLRUCache \<Rightarrow> ThumbnailLRUCache" where
  "apply_op (Get k) c = snd (cache_get c k)"
| "apply_op (Set k v) c = cache_set c k v"
| "apply_op (Has k) c = c"
| "apply_op Clear c = cache_clear c"

fun run_ops :: "cache_op list \<Rightarrow> ThumbnailLRUCache \<Rightarrow> ThumbnailLRUCache" where
  "run_ops [] c = c"
| "run_ops (x # xs) c = run_ops xs (apply_op x c)"

text \<open>
  A touch is a \<open>set\<close> of a key, or a \<open>get\<close> of a key the cache holds. \<open>run_log\<close> runs a
  sequence and keeps the log of the keys touched, oldest touch first.
\<close>

fun touched :: "cache_op \<Rightarrow> ThumbnailLRUCache \<Rightarrow> string list" where
  "touched (Set k v) c = [k]"
| "touched (Get k) c = (if cache_has c k then [k] else [])"
| "touched (Has k) c = []"
| "touched Clear c = []"

fun run_log :: "cache_op list \<Rightarrow> ThumbnailLRUCache \<times> string list
                  \<Rightarrow> ThumbnailLRUCache \<times> string list" where
  "run_log [] s = s"
| "run_log (x # xs) (c, tlog) = run_log xs (apply_op x c, tlog @ touched x c)"

text \<open>
  \<open>last_touch tlog k\<close> is the position in the log (counted from 1) of the latest touch
  of \<open>k\<close>, and 0 when \<open>k\<close> was never touched. \<open>lastn n xs\<close> is the last \<open>n\<close> elements.
\<close>

definition last_touch :: "string list \<Rightarrow> string \<Rightarrow> nat" where
  "last_touch tlog k = length (dropWhile (\<lambda>x. x \<noteq> k) (rev tlog))"

definition lastn :: "nat \<Rightarrow> 'a list \<Rightarrow> 'a list" where
  "lastn n xs = drop (length xs - n) xs"

definition keys :: "ThumbnailLRUCache \<Rightarrow> string list" where
  "keys c = map fst (cache c)"

text \<open>The keys that a sequence of operations inserts.\<close>

fun inserted_keys :: "cache_op list \<Rightarrow> string list" where
  "inserted_keys [] = []"
| "inserted_keys (Set k v # xs) = k # inserted_keys xs"
| "inserted_keys (x # xs) = inserted_keys xs"

text \<open>
  The relation between a cache and the log of touches that the sequences keep: the keys
  held, in the map's order, are the last \<open>maxSize\<close> distinct keys of the log, in the order
  of their latest touch.
\<close>

definition recency_inv :: "int \<Rightarrow> ThumbnailLRUCache \<times> string list \<Rightarrow> bool" where
  "recency_inv n s =
     (maxSize (fst s) = n \<and> keys (fst s) = lastn (nat n) (remdups (snd s)))"

definition size_inv :: "int \<Rightarrow> ThumbnailLRUCache \<Rightarrow> bool" where
  "size_inv n c = (maxSize c = n \<and> distinct (keys c) \<and> cache_size c \<le> n)"

section \<open>JavaScript numbers\<close>

text \<open>
  A JavaScript number is an IEEE 754 binary64 value. A finite one is the real number it
  denotes; \<open>NaN\<close> and the two infinities are not values of this model. An arithmetic
  operation of the code is the exact operation followed by \<open>fl\<close>, the rounding of a real
  to the nearest double: 53 significant bits, a tie going to the double whose last bit
  is even, and below \<open>2^-1022\<close> the fixed spacing \<open>2^-1074\<close> of the subnormal numbers.
  Where the code would overflow to an infinity (a result of magnitude \<open>2^1024\<close> or more)
  or divide by zero, the model says nothing about the code.

  \<open>ilog2 n\<close> and \<open>clog2 n\<close> are the logarithm to base 2 of an integer \<open>n \<ge> 1\<close>, rounded
  down and up; \<open>exponent x\<close> is the integer \<open>e\<close> with \<open>2^e \<le> |x| < 2^(e+1)\<close>, for \<open>x\<close> other
  than 0, and \<open>ulp x\<close> the spacing of the doubles at \<open>x\<close>.
\<close>

definition round_half_even :: "real \<Rightarrow> int" where
  "round_half_even x =
     (if x - of_int \<lfloor>x\<rfloor> = 1 / 2 then (if even \<lfloor>x\<rfloor> then \<lfloor>x\<rfloor> else \<lfloor>x\<rfloor> + 1)
      else \<lfloor>x + 1 / 2\<rfloor>)"

function ilog2 :: "int \<Rightarrow> int" where
  "ilog2 n = (if n \<le> 1 then 0 else 1 + ilog2 (n div 2))"
  by pat_completeness auto
termination
  by (relation "measure nat") auto

definition clog2 :: "int \<Rightarrow> int" where
  "clog2 n = (if n \<le> 1 then 0 else 1 + ilog2 (n - 1))"

definition exponent :: "real \<Rightarrow> int" where
  "exponent x = (if 1 \<le> \<bar>x\<bar> then ilog2 \<lfloor>\<bar>x\<bar>\<rfloor> else - clog2 \<lceil>1 / \<bar>x\<bar>\<rceil>)"

definition ulp :: "real \<Rightarrow> real" where
  "ulp x = 2 powi (max (exponent x) (- 1022) - 52)"

definition fl :: "real \<Rightarrow> real" where
  "fl x = (if x = 0 then 0 else of_int (round_half_even (x / ulp x)) * ulp x)"

text \<open>
  \<open>Math.round\<close> returns the integer nearest to its argument and, of two equally near,
  the greater one. The result is a double whenever the argument is.
\<close>

definition Math_round :: "real \<Rightarrow> int" where
  "Math_round x = \<lfloor>x + 1 / 2\<rfloor>"

text \<open>
  \<open>Number_toString\<close> is the conversion of a number to a string that a template literal
  applies, for a double with an integer value (the only numbers it is applied to
  here). ECMAScript prints the shortest decimal \<open>s * 10^(n-k)\<close>, with \<open>s\<close> of \<open>k\<close> digits,
  that \<open>fl\<close> maps to the number, and of several shortest ones the nearest (of two equally
  near, the one with even \<open>s\<close>); with at most 21 digits before the point it prints them
  all, and otherwise the exponent form \<open>d.ddde+N\<close>.

  \<open>candidate x k\<close> is the decimal with \<open>k\<close> significant digits that is chosen for the
  positive number \<open>x\<close>, if there is one; \<open>shortest x ks\<close> tries the digit counts \<open>ks\<close> in
  order.
\<close>

function show_digits :: "int \<Rightarrow> string" where
  "show_digits n = (if n < 10 then [''0123456789'' ! nat n]
                    else show_digits (n div 10) @ [''0123456789'' ! nat (n mod 10)])"
  by pat_completeness auto
termination
  by (relation "measure nat") auto

definition candidate :: "real \<Rightarrow> nat \<Rightarrow> int option" where
  "candidate x k =
     (let i = \<lfloor>x\<rfloor>;
          p = 10 ^ (length (show_digits i) - k);
          lo = (i div p) * p;
          hi = lo + p;
          ok_lo = (fl (of_int lo) = x);
          ok_hi = (fl (of_int hi) = x)
      in if ok_lo \<and> ok_hi
         then (if x - of_int lo < of_int hi - x then Some lo
               else if of_int hi - x < x - of_int lo then Some hi
               else if even (i div p) then Some lo else Some hi)
         else if ok_lo then Some lo
         else if ok_hi then Some hi
         else None)"

fun shortest :: "real \<Rightarrow> nat list \<Rightarrow> int" where
  "shortest x [] = \<lfloor>x\<rfloor>"
| "shortest x (k # ks) = (case candidate x k of Some v \<Rightarrow> v | None \<Rightarrow> shortest x ks)"

definition strip_zeros :: "string \<Rightarrow> string" where
  "strip_zeros ds = rev (dropWhile (\<lambda>c. c = CHR ''0'') (rev ds))"

definition show_positive :: "real \<Rightarrow> string" where
  "show_positive x =
     (let ds = show_digits (shortest x [1..<18]);
          n = length ds
      in if n \<le> 21 then ds
         else (case strip_zeros ds of
                 [] \<Rightarrow> ds
               | d # rest \<Rightarrow>
                   d # (if rest = [] then [] else ''.'' @ rest) @ ''e+''
                     @ show_digits (int n - 1)))"

definition Number_toString :: "real \<Rightarrow> string" where
  "Number_toString x =
     (if x = 0 then ''0''
      else if x < 0 then ''-'' @ show_positive (- x)
      else show_positive x)"

section \<open>The time quantizer\<close>

text \<open>
  \<open>roundTime\<close>: the division and the product are operations on doubles. With the
  precision 1, which is the default and the only one the code passes, both are exact.
\<close>

definition TIME_PRECISION :: real where
  "TIME_PRECISION = 1"

definition roundTime :: "real \<Rightarrow> real \<Rightarrow> real" where
  "roundTime time precision = fl (of_int (Math_round (fl (time / precision))) * precision)"

text \<open>
  What the specification describes instead: rounding in which a quotient halfway
  between two integers goes to the even one.
\<close>

definition quantize_ties_even :: "real \<Rightarrow> real \<Rightarrow> real" where
  "quantize_ties_even time precision = of_int (round_half_even (time / precision)) * precision"

definition getCacheKey :: "string \<Rightarrow> real \<Rightarrow> string" where
  "getCacheKey videoSrc time =
     videoSrc @ '':'' @ Number_toString (roundTime time TIME_PRECISION)"

section \<open>The position of the preview (ThumbnailPreview)\<close>

text \<open>
  The clamping of \<open>ThumbnailPreview\<close>, with its three divisions, products and
  differences rounded as the code rounds them; \<open>Math.max\<close> and \<open>Math.min\<close> are exact.
\<close>

definition THUMBNAIL_WIDTH :: real where
  "THUMBNAIL_WIDTH = 160"

definition clampedPosition :: "real \<Rightarrow> real \<Rightarrow> real" where
  "clampedPosition position containerWidth =
     (let halfWidth = fl (THUMBNAIL_WIDTH / 2);
          minPosition = fl (fl (halfWidth / containerWidth) * 100);
          maxPosition = fl (100 - minPosition)
      in max minPosition (min maxPosition position))"

text \<open>
  The pixel edges of the preview as the repository's test of the position bounds
  computes them (\<open>isThumbnailWithinBounds\<close> in
  tests/hooks/use-thumbnail-generator.test.ts), in doubles.
\<close>

definition centerX :: "real \<Rightarrow> real \<Rightarrow> real" where
  "centerX clamped containerWidth = fl (fl (clamped / 100) * containerWidth)"

definition leftEdge :: "real \<Rightarrow> real \<Rightarrow> real" where
  "leftEdge clamped containerWidth =
     fl (centerX clamped containerWidth - fl (THUMBNAIL_WIDTH / 2))"

definition rightEdge :: "real \<Rightarrow> real \<Rightarrow> real" where
  "rightEdge clamped containerWidth =
     fl (centerX clamped containerWidth + fl (THUMBNAIL_WIDTH / 2))"

section \<open>The hook useThumbnailGenerator\<close>

subsection \<open>State\<close>

text \<open>
  A hidden video element, as far as the hook uses it: its \<open>src\<close>, its \<open>currentTime\<close> and
  the listeners attached. Every capture attaches a \<open>seeked\<close> listener and an \<open>error\<close>
  listener together and removes them together, so one entry of \<open>listeners\<close> stands for
  the pair: the number of the capture (the identity of its two closures) and the
  \<open>cacheKey\<close> that both closures hold. The entries are in the order of attachment.
\<close>

record video_elem =
  src :: string
  currentTime :: real
  listeners :: "(nat \<times> string) list"

text \<open>
  The state of one mounted hook and of the part of the browser it talks to:
  \<^item> the props of the latest render, and \<open>isBrowser\<close>;
  \<^item> the three \<open>useState\<close> values;
  \<^item> the six refs (\<open>videoRef\<close> holds the index of an element of \<open>videos\<close>, \<open>canvasRef\<close>
    is true when it holds a canvas);
  \<^item> \<open>videos\<close>: every video element created so far;
  \<^item> \<open>timers\<close>: the pending timeouts, each with its handle, the time at which it is due
    and the \<open>videoSrc\<close> its callback closed over; \<open>now\<close> is the clock in milliseconds;
  \<^item> \<open>cleanupSet\<close>: whether the first effect returned its cleanup function;
  \<^item> \<open>attempts\<close>: the \<open>requestedTime\<close> of every run of the timeout callback so far.
    The hook does not keep this list; it is what the claims about debouncing observe.
\<close>

record hook =
  videoSrc :: "string option"
  enabled :: bool
  isBrowser :: bool
  thumbnailUrl :: "string option"
  isLoading :: bool
  error :: "string option"
  videoRef :: "nat option"
  canvasRef :: bool
  cacheRef :: ThumbnailLRUCache
  debounceTimeoutRef :: "nat option"
  pendingTimeRef :: "real option"
  currentVideoSrcRef :: "string option"
  videos :: "video_elem list"
  timers :: "(nat \<times> nat \<times> string) list"
  now :: nat
  nextTimer :: nat
  nextCapture :: nat
  cleanupSet :: bool
  attempts :: "real list"

definition DEBOUNCE_DELAY :: nat where
  "DEBOUNCE_DELAY = 100"

text \<open>Truthiness of a value of type \<open>string | null | undefined\<close>.\<close>

definition truthy :: "string option \<Rightarrow> bool" where
  "truthy x = (case x of None \<Rightarrow> False | Some v \<Rightarrow> v \<noteq> [])"

definition initial :: "string option \<Rightarrow> bool \<Rightarrow> bool \<Rightarrow> hook" where
  "initial vs en br =
     \<lparr>videoSrc = vs, enabled = en, isBrowser = br,
      thumbnailUrl = None, isLoading = False, error = None,
      videoRef = None, canvasRef = False, cacheRef = empty_cache MAX_CACHE_SIZE,
      debounceTimeoutRef = None, pendingTimeRef = None, currentVideoSrcRef = None,
      videos = [], timers = [], now = 0, nextTimer = 1, nextCapture = 0,
      cleanupSet = False, attempts = []\<rparr>"

subsection \<open>The browser: elements, listeners, timeouts\<close>

definition update_video :: "nat \<Rightarrow> (video_elem \<Rightarrow> video_elem) \<Rightarrow> hook \<Rightarrow> hook" where
  "update_video vid f st =
     (if vid < length (videos st) then st\<lparr>videos := (videos st)[vid := f (videos st ! vid)]\<rparr>
      else st)"

definition addEventListeners :: "nat \<Rightarrow> nat \<times> string \<Rightarrow> hook \<Rightarrow> hook" where
  "addEventListeners vid l st = update_video vid (\<lambda>v. v\<lparr>listeners := listeners v @ [l]\<rparr>) st"

definition removeEventListeners :: "nat \<Rightarrow> nat \<Rightarrow> hook \<Rightarrow> hook" where
  "removeEventListeners vid cid st =
     update_video vid (\<lambda>v. v\<lparr>listeners := filter (\<lambda>l. fst l \<noteq> cid) (listeners v)\<rparr>) st"

definition listeners_of :: "hook \<Rightarrow> nat \<Rightarrow> (nat \<times> string) list" where
  "listeners_of st vid = (if vid < length (videos st) then listeners (videos st ! vid) else [])"

definition clearTimeout :: "nat \<Rightarrow> hook \<Rightarrow> hook" where
  "clearTimeout h st = st\<lparr>timers := filter (\<lambda>t. fst t \<noteq> h) (timers st)\<rparr>"

subsection \<open>captureThumbnail\<close>

text \<open>
  What the canvas does when asked: \<open>getContext\<close> returns null, \<open>drawImage\<close> or
  \<open>toDataURL\<close> throws (a frame that may not be read), or \<open>toDataURL\<close> returns a URL.
\<close>

datatype canvas_result = NoContext | DrawThrows | DataURL string

definition captureThumbnail :: "hook \<Rightarrow> canvas_result \<Rightarrow> string option" where
  "captureThumbnail st r =
     (if videoRef st = None \<or> \<not> canvasRef st then None
      else case r of NoContext \<Rightarrow> None | DrawThrows \<Rightarrow> None | DataURL u \<Rightarrow> Some u)"

subsection \<open>The two handlers of a capture\<close>

definition handleSeeked :: "nat \<Rightarrow> nat \<Rightarrow> string \<Rightarrow> canvas_result \<Rightarrow> hook \<Rightarrow> hook" where
  "handleSeeked vid cid cacheKey r st =
     (let thumbnail = captureThumbnail st r;
          st1 = (if truthy thumbnail
                 then st\<lparr>cacheRef := cache_set (cacheRef st) cacheKey (the thumbnail),
                         thumbnailUrl := thumbnail, error := None\<rparr>
                 else st\<lparr>error := Some ''Failed to capture thumbnail'', thumbnailUrl := None\<rparr>);
          st2 = st1\<lparr>isLoading := False\<rparr>
      in removeEventListeners vid cid st2)"

definition handleError :: "nat \<Rightarrow> nat \<Rightarrow> hook \<Rightarrow> hook" where
  "handleError vid cid st =
     removeEventListeners vid cid
       (st\<lparr>error := Some ''Failed to load video for thumbnail'',
           thumbnailUrl := None, isLoading := False\<rparr>)"

text \<open>
  An event on an element runs the listeners that are attached when it is dispatched, in
  the order of attachment.
\<close>

definition dispatch_seeked :: "nat \<Rightarrow> canvas_result \<Rightarrow> hook \<Rightarrow> hook" where
  "dispatch_seeked vid r st =
     fold (\<lambda>l s. handleSeeked vid (fst l) (snd l) r s) (listeners_of st vid) st"

definition dispatch_error :: "nat \<Rightarrow> hook \<Rightarrow> hook" where
  "dispatch_error vid st = fold (\<lambda>l s. handleError vid (fst l) s) (listeners_of st vid) st"

subsection \<open>generateThumbnail and its timeout callback\<close>

definition timeoutCallback :: "string \<Rightarrow> hook \<Rightarrow> hook" where
  "timeoutCallback vs st =
     (case pendingTimeRef st of
        None \<Rightarrow> st
      | Some requestedTime \<Rightarrow>
          (let st0 = st\<lparr>attempts := attempts st @ [requestedTime]\<rparr>;
               cacheKey = getCacheKey vs requestedTime;
               cached = fst (cache_get (cacheRef st0) cacheKey);
               st1 = st0\<lparr>cacheRef := snd (cache_get (cacheRef st0) cacheKey)\<rparr>
           in if truthy cached
              then st1\<lparr>thumbnailUrl := cached, isLoading := False, error := None\<rparr>
              else (case videoRef st1 of
                      None \<Rightarrow> st1\<lparr>error := Some ''Video element not available''\<rparr>
                    | Some video \<Rightarrow>
                        (let st2 = st1\<lparr>isLoading := True, error := None\<rparr>;
                             st3 = addEventListeners video (nextCapture st2, cacheKey)
                                     (st2\<lparr>nextCapture := Suc (nextCapture st2)\<rparr>)
                         in update_video video
                              (\<lambda>v. v\<lparr>currentTime := roundTime requestedTime TIME_PRECISION\<rparr>)
                              st3))))"

definition generateThumbnail :: "real \<Rightarrow> hook \<Rightarrow> hook" where
  "generateThumbnail time st =
     (if \<not> enabled st \<or> \<not> truthy (videoSrc st) \<or> \<not> isBrowser st then st
      else
        (let st1 = (case debounceTimeoutRef st of None \<Rightarrow> st | Some h \<Rightarrow> clearTimeout h st);
             st2 = st1\<lparr>pendingTimeRef := Some time\<rparr>;
             h = nextTimer st2
         in st2\<lparr>debounceTimeoutRef := Some h,
                timers := timers st2 @ [(h, now st2 + DEBOUNCE_DELAY, the (videoSrc st2))],
                nextTimer := Suc h\<rparr>))"

definition clearCache :: "hook \<Rightarrow> hook" where
  "clearCache st = st\<lparr>cacheRef := cache_clear (cacheRef st), thumbnailUrl := None\<rparr>"

text \<open>
  Time passes: the timeouts that are due run, in the order in which they were set, each
  leaving the list of pending timeouts before its callback runs.
\<close>

definition fire :: "nat \<times> nat \<times> string \<Rightarrow> hook \<Rightarrow> hook" where
  "fire t st = timeoutCallback (snd (snd t)) (clearTimeout (fst t) st)"

definition advance :: "nat \<Rightarrow> hook \<Rightarrow> hook" where
  "advance d st =
     (let t = now st + d
      in fold fire (filter (\<lambda>x. fst (snd x) \<le> t) (timers st)) (st\<lparr>now := t\<rparr>))"

subsection \<open>The two effects\<close>

definition effect1 :: "hook \<Rightarrow> hook" where
  "effect1 st =
     (if \<not> isBrowser st \<or> \<not> enabled st then st\<lparr>cleanupSet := False\<rparr>
      else st\<lparr>videos := videos st @ [\<lparr>src = [], currentTime = 0, listeners = []\<rparr>],
              videoRef := Some (length (videos st)),
              canvasRef := True,
              cleanupSet := True\<rparr>)"

definition cleanup1 :: "hook \<Rightarrow> hook" where
  "cleanup1 st =
     (let st1 = (case videoRef st of
                   None \<Rightarrow> st
                 | Some video \<Rightarrow> (update_video video (\<lambda>v. v\<lparr>src := []\<rparr>) st)\<lparr>videoRef := None\<rparr>);
          st2 = st1\<lparr>canvasRef := False\<rparr>;
          st3 = st2\<lparr>cacheRef := cache_clear (cacheRef st2)\<rparr>
      in case debounceTimeoutRef st3 of None \<Rightarrow> st3 | Some h \<Rightarrow> clearTimeout h st3)"

definition effect2 :: "hook \<Rightarrow> hook" where
  "effect2 st =
     (case videoRef st of
        None \<Rightarrow> st
      | Some video \<Rightarrow>
          if \<not> truthy (videoSrc st) \<or> \<not> enabled st then st
          else if currentVideoSrcRef st \<noteq> videoSrc st
          then (update_video video (\<lambda>v. v\<lparr>src := the (videoSrc st)\<rparr>)
                  (st\<lparr>currentVideoSrcRef := videoSrc st\<rparr>))
                 \<lparr>cacheRef := cache_clear (cacheRef st), thumbnailUrl := None, error := None\<rparr>
          else st)"

text \<open>
  Mounting runs both effects. A render with new props runs, for the effects whose
  dependencies changed, first the cleanup and then the effects, in the order of the
  source. Unmounting runs the cleanup.
\<close>

definition mount :: "string option \<Rightarrow> bool \<Rightarrow> bool \<Rightarrow> hook" where
  "mount vs en br = effect2 (effect1 (initial vs en br))"

definition render :: "string option \<Rightarrow> bool \<Rightarrow> hook \<Rightarrow> hook" where
  "render vs en st =
     (let st1 = st\<lparr>videoSrc := vs, enabled := en\<rparr>
      in if en \<noteq> enabled st
         then effect2 (effect1 (if cleanupSet st1 then cleanup1 st1 else st1))
         else if vs \<noteq> videoSrc st then effect2 st1
         else st1)"

definition unmount :: "hook \<Rightarrow> hook" where
  "unmount st = (if cleanupSet st then (cleanup1 st)\<lparr>cleanupSet := False\<rparr> else st)"

subsection \<open>Runs\<close>

datatype event =
    Render "string option" bool
  | Unmount
  | GenerateThumbnail real
  | ClearCache
  | Advance nat
  | Seeked nat canvas_result
  | VideoError nat

fun step :: "event \<Rightarrow> hook \<Rightarrow> hook" where
  "step (Render vs en) st = render vs en st"
| "step Unmount st = unmount st"
| "step (GenerateThumbnail time) st = generateThumbnail time st"
| "step ClearCache st = clearCache st"
| "step (Advance d) st = advance d st"
| "step (Seeked vid r) st = dispatch_seeked vid r st"
| "step (VideoError vid) st = dispatch_error vid st"

definition run :: "event list \<Rightarrow> hook \<Rightarrow> hook" where
  "run evs st = fold step evs st"

text \<open>
  A burst of calls: each call comes with the time that passed since the call before it.
\<close>

fun burst :: "(nat \<times> real) list \<Rightarrow> event list" where
  "burst [] = []"
| "burst ((gap, time) # calls) = Advance gap # GenerateThumbnail time # burst calls"

text \<open>
  The times for which the timeout callback runs when a timeout for \<open>p\<close> is pending, the
  calls of the list follow, and then the debounce delay passes: a timeout that a call
  does not reach in time fires, the others are replaced.
\<close>

fun coalesce :: "real \<Rightarrow> (nat \<times> real) list \<Rightarrow> real list" where
  "coalesce p [] = [p]"
| "coalesce p ((gap, time) # calls) =
     (if DEBOUNCE_DELAY \<le> gap then p # coalesce time calls else coalesce time calls)"

text \<open>The state in which the debouncing of a run of calls is observed.\<close>

definition ready :: "hook \<Rightarrow> bool" where
  "ready st = (enabled st \<and> truthy (videoSrc st) \<and> isBrowser st)"

definition armed :: "hook \<Rightarrow> real \<Rightarrow> bool" where
  "armed st p =
     (ready st \<and> pendingTimeRef st = Some p \<and>
      (\<exists>h. timers st = [(h, now st + DEBOUNCE_DELAY, the (videoSrc st))] \<and>
           debounceTimeoutRef st = Some h))"

section \<open>Properties of the cache\<close>

lemma keys_map_delete: "map fst (map_delete m k) = filter (\<lambda>x. x \<noteq> k) (map fst m)"
  by (induction m) (auto simp: map_delete_def)

lemma keys_map_set_new: "\<not> map_has m k \<Longrightarrow> map fst (map_set m k v) = map fst m @ [k]"
  by (simp add: map_set_def)

lemma map_has_delete: "\<not> map_has (map_delete m k) k"
  by (simp add: map_has_def keys_map_delete)

lemma filter_neq_id: "k \<notin> set xs \<Longrightarrow> filter (\<lambda>x. x \<noteq> k) xs = xs"
  by (induction xs) auto

lemma keys_get:
  "keys (snd (cache_get c k)) =
     (if cache_has c k then filter (\<lambda>x. x \<noteq> k) (keys c) @ [k] else keys c)"
proof (cases "map_of (cache c) k")
  case None
  then have "\<not> cache_has c k"
    by (simp add: cache_has_def map_has_def map_of_eq_None_iff)
  with None show ?thesis by (simp add: cache_get_def map_get_def)
next
  case (Some v)
  then have "cache_has c k"
    by (metis cache_has_def map_has_def map_of_eq_None_iff option.distinct(1) set_map)
  with Some show ?thesis
    by (simp add: cache_get_def map_get_def keys_def keys_map_set_new map_has_delete keys_map_delete)
qed

lemma maxSize_get: "maxSize (snd (cache_get c k)) = maxSize c"
  by (simp add: cache_get_def split: option.splits)

lemma maxSize_set: "maxSize (cache_set c k v) = maxSize c"
  by (simp add: cache_set_def Let_def split: list.splits)

lemma keys_set:
  assumes "distinct (keys c)"
  shows "keys (cache_set c k v) =
     (let ks = filter (\<lambda>x. x \<noteq> k) (keys c)
      in (if int (length ks) \<ge> maxSize c then tl ks else ks) @ [k])"
proof -
  define m1 where "m1 = (if map_has (cache c) k then map_delete (cache c) k else cache c)"
  define ks where "ks = filter (\<lambda>x. x \<noteq> k) (keys c)"
  have k1: "map fst m1 = ks"
    by (simp add: m1_def ks_def keys_map_delete keys_def map_has_def filter_neq_id)
  have d1: "distinct (map fst m1)" using assms k1 by (simp add: ks_def)
  have nk: "\<not> map_has m1 k" by (simp add: map_has_def k1 ks_def)
  have len: "length m1 = length ks" using k1 by (metis length_map)
  have "keys (cache_set c k v) = (if int (length m1) \<ge> maxSize c then tl (map fst m1) else map fst m1) @ [k]"
  proof (cases m1)
    case Nil
    with nk show ?thesis
      by (simp add: cache_set_def Let_def m1_def[symmetric] keys_def keys_map_set_new)
  next
    case (Cons e es)
    obtain ok ov where e: "e = (ok, ov)" by (cases e)
    have ok: "ok \<notin> set (map fst es)" using d1 Cons e by simp
    have del: "map fst (map_delete m1 ok) = map fst es"
      using ok by (simp add: keys_map_delete Cons e filter_neq_id)
    have nk2: "\<not> map_has (map_delete m1 ok) k"
      using nk by (simp add: map_has_def keys_map_delete)
    have "keys (cache_set c k v) =
            (if int (length m1) \<ge> maxSize c then map fst (map_delete m1 ok) else map fst m1) @ [k]"
      using nk nk2
      by (simp add: cache_set_def Let_def m1_def[symmetric] keys_def keys_map_set_new Cons e)
    then show ?thesis using del Cons by simp
  qed
  then show ?thesis by (simp add: k1 len ks_def Let_def)
qed

lemma length_filter_neq:
  "distinct s \<Longrightarrow> k \<in> set s \<Longrightarrow> Suc (length (filter (\<lambda>x. x \<noteq> k) s)) = length s"
  by (induction s) (auto simp: filter_neq_id)

lemma lastn_append: "n \<le> length ys \<Longrightarrow> lastn n (xs @ ys) = lastn n ys"
  by (simp add: lastn_def)

lemma lastn_all: "length ys \<le> n \<Longrightarrow> lastn n ys = ys"
  by (simp add: lastn_def)

lemma lastn_snoc: "1 \<le> n \<Longrightarrow> n \<le> length s \<Longrightarrow> lastn n (s @ [k]) = tl (lastn n s) @ [k]"
  by (simp add: lastn_def drop_Suc tl_drop Suc_diff_le)

lemma length_lastn: "length (lastn n xs) = min n (length xs)"
  by (simp add: lastn_def)

lemma lastn_touch_in:
  assumes "distinct r" "k \<in> set (lastn n r)"
  shows "lastn n (filter (\<lambda>x. x \<noteq> k) r @ [k]) = filter (\<lambda>x. x \<noteq> k) (lastn n r) @ [k]"
proof -
  define p where "p = take (length r - n) r"
  define s where "s = lastn n r"
  have r: "r = p @ s" by (simp add: p_def s_def lastn_def)
  have ks: "k \<in> set s" using assms(2) by (simp add: s_def)
  have kp: "k \<notin> set p" using assms(1) ks r by auto
  have ds: "distinct s" using assms(1) r by simp
  have len: "Suc (length (filter (\<lambda>x. x \<noteq> k) s)) = length s"
    by (rule length_filter_neq[OF ds ks])
  have lp: "length p = length r - n" by (simp add: p_def)
  have eq: "filter (\<lambda>x. x \<noteq> k) r @ [k] = p @ (filter (\<lambda>x. x \<noteq> k) s @ [k])"
    using kp by (simp add: r filter_neq_id)
  have "length (filter (\<lambda>x. x \<noteq> k) r @ [k]) = length r"
    using len kp by (simp add: r filter_neq_id)
  then have "lastn n (filter (\<lambda>x. x \<noteq> k) r @ [k]) = drop (length p) (filter (\<lambda>x. x \<noteq> k) r @ [k])"
    unfolding lastn_def lp by simp
  also have "\<dots> = filter (\<lambda>x. x \<noteq> k) s @ [k]"
    unfolding eq by simp
  finally show ?thesis by (simp add: s_def)
qed

lemma lastn_touch_out:
  assumes "distinct r" "k \<notin> set (lastn n r)" "1 \<le> n"
  shows "lastn n (filter (\<lambda>x. x \<noteq> k) r @ [k]) =
           (if n \<le> length (lastn n r) then tl (lastn n r) else lastn n r) @ [k]"
proof (cases "k \<in> set r")
  case False
  then have f: "filter (\<lambda>x. x \<noteq> k) r = r" by (simp add: filter_neq_id)
  show ?thesis
  proof (cases "n \<le> length r")
    case True
    then show ?thesis using assms(3) by (simp add: f lastn_snoc length_lastn)
  next
    case False
    then show ?thesis by (simp add: f lastn_all length_lastn)
  qed
next
  case True
  define p where "p = take (length r - n) r"
  define s where "s = lastn n r"
  have r: "r = p @ s" by (simp add: p_def s_def lastn_def)
  have "set r = set p \<union> set s" by (subst r) simp
  moreover have "k \<notin> set s" using assms(2) by (simp add: s_def)
  ultimately have kp: "k \<in> set p" using True by simp
  then have "p \<noteq> []" by auto
  then have "n < length r" by (auto simp: p_def)
  then have ls: "length s = n" by (simp add: s_def length_lastn)
  have ks: "k \<notin> set s" using assms(2) by (simp add: s_def)
  have "filter (\<lambda>x. x \<noteq> k) r @ [k] = filter (\<lambda>x. x \<noteq> k) p @ (s @ [k])"
    using ks by (simp add: r filter_neq_id)
  then have "lastn n (filter (\<lambda>x. x \<noteq> k) r @ [k]) = lastn n (s @ [k])"
    using ls by (simp add: lastn_append)
  also have "\<dots> = tl (lastn n s) @ [k]"
    using ls assms(3) by (simp add: lastn_snoc)
  also have "lastn n s = s" using ls by (simp add: lastn_all)
  finally show ?thesis using ls by (simp add: s_def)
qed

lemma remdups_snoc: "remdups (xs @ [k]) = filter (\<lambda>x. x \<noteq> k) (remdups xs) @ [k]"
  by (induction xs) auto

lemma distinct_lastn: "distinct xs \<Longrightarrow> distinct (lastn n xs)"
  by (simp add: lastn_def)

lemma cache_has_keys: "cache_has c k = (k \<in> set (keys c))"
  by (simp add: cache_has_def map_has_def keys_def)

lemma recency_inv_step:
  assumes "1 \<le> n" "x \<noteq> Clear" "recency_inv n (c, tlog)"
  shows "recency_inv n (apply_op x c, tlog @ touched x c)"
proof -
  from assms(3) have ms: "maxSize c = n" and ks: "keys c = lastn (nat n) (remdups tlog)"
    by (simp_all add: recency_inv_def)
  have d: "distinct (keys c)" by (simp add: ks distinct_lastn)
  have n1: "1 \<le> nat n" using assms(1) by simp
  show ?thesis
  proof (cases x)
    case (Get k)
    show ?thesis
    proof (cases "cache_has c k")
      case True
      then have "k \<in> set (lastn (nat n) (remdups tlog))"
        using ks by (simp add: cache_has_keys)
      then show ?thesis using True ms ks
        by (simp add: Get recency_inv_def maxSize_get keys_get remdups_snoc lastn_touch_in)
    next
      case False
      then show ?thesis using ms ks
        by (simp add: Get recency_inv_def maxSize_get keys_get)
    qed
  next
    case (Set k v)
    show ?thesis
    proof (cases "cache_has c k")
      case True
      then have kin: "k \<in> set (lastn (nat n) (remdups tlog))"
        using ks by (simp add: cache_has_keys)
      then have kin': "k \<in> set (keys c)" using ks by simp
      have "length (keys c) \<le> nat n" by (simp add: ks length_lastn)
      with length_filter_neq[OF d kin']
      have "\<not> n \<le> int (length (filter (\<lambda>x. x \<noteq> k) (keys c)))" by linarith
      then show ?thesis using ms kin ks
        by (simp add: Set recency_inv_def maxSize_set keys_set[OF d] Let_def remdups_snoc lastn_touch_in)
    next
      case False
      then have kout: "k \<notin> set (lastn (nat n) (remdups tlog))"
        using ks by (simp add: cache_has_keys)
      then have f: "filter (\<lambda>x. x \<noteq> k) (lastn (nat n) (remdups tlog)) = lastn (nat n) (remdups tlog)"
        by (simp add: filter_neq_id)
      have "(n \<le> int (length (lastn (nat n) (remdups tlog)))) = (nat n \<le> length (lastn (nat n) (remdups tlog)))"
        by auto
      then show ?thesis using ms ks
        by (simp add: Set recency_inv_def maxSize_set keys_set[OF d] Let_def f remdups_snoc
              lastn_touch_out[OF distinct_remdups kout n1])
    qed
  next
    case (Has k)
    then show ?thesis using assms(3) by simp
  next
    case Clear
    then show ?thesis using assms(2) by simp
  qed
qed

lemma recency_inv_run:
  assumes "1 \<le> n" "Clear \<notin> set ops" "recency_inv n s"
  shows "recency_inv n (run_log ops s)"
  using assms
proof (induction ops arbitrary: s)
  case Nil
  then show ?case by simp
next
  case (Cons x xs)
  obtain c tlog where s: "s = (c, tlog)" by (cases s)
  have "recency_inv n (apply_op x c, tlog @ touched x c)"
    using Cons.prems by (intro recency_inv_step) (auto simp: s)
  then show ?case using Cons by (simp add: s)
qed


lemma last_touch_snoc:
  "last_touch (xs @ [k]) a = (if a = k then Suc (length xs) else last_touch xs a)"
  by (simp add: last_touch_def)

lemma last_touch_le: "last_touch xs a \<le> length xs"
  unfolding last_touch_def by (metis length_dropWhile_le length_rev)

lemma sorted_remdups_last_touch:
  "sorted_wrt (\<lambda>a b. last_touch xs a < last_touch xs b) (remdups xs)"
proof (induction xs rule: rev_induct)
  case Nil
  then show ?case by simp
next
  case (snoc k xs)
  have "sorted_wrt (\<lambda>a b. last_touch xs a < last_touch xs b) (filter (\<lambda>x. x \<noteq> k) (remdups xs))"
    using snoc by (rule sorted_wrt_filter)
  then have "sorted_wrt (\<lambda>a b. last_touch (xs @ [k]) a < last_touch (xs @ [k]) b)
               (filter (\<lambda>x. x \<noteq> k) (remdups xs))"
    by (rule sorted_wrt_mono_rel[rotated]) (simp add: last_touch_snoc)
  moreover have "\<forall>a \<in> set (filter (\<lambda>x. x \<noteq> k) (remdups xs)).
                   last_touch (xs @ [k]) a < last_touch (xs @ [k]) k"
    using last_touch_le[of xs] by (auto simp: last_touch_snoc less_Suc_eq_le)
  ultimately show ?case
    by (simp add: remdups_snoc sorted_wrt_append)
qed

lemma sorted_lastn: "sorted_wrt P xs \<Longrightarrow> sorted_wrt P (lastn n xs)"
  by (simp add: lastn_def sorted_wrt_drop)

lemma set_lastn: "set (lastn n xs) \<subseteq> set xs"
  by (simp add: lastn_def set_drop_subset)

lemma touched_subset:
  assumes "recency_inv n (c, tlog)"
  shows "set (tlog @ touched x c) = set tlog \<union> set (inserted_keys [x])"
proof (cases x)
  case (Get k)
  have "cache_has c k \<Longrightarrow> k \<in> set tlog"
    using assms set_lastn[of "nat n" "remdups tlog"]
    by (auto simp: recency_inv_def cache_has_keys)
  then show ?thesis by (auto simp: Get)
qed simp_all

lemma inserted_keys_Cons: "set (inserted_keys (x # xs)) = set (inserted_keys [x]) \<union> set (inserted_keys xs)"
  by (cases x) simp_all

lemma set_log_run:
  assumes "1 \<le> n" "Clear \<notin> set ops" "recency_inv n s"
  shows "set (snd (run_log ops s)) = set (snd s) \<union> set (inserted_keys ops)"
  using assms
proof (induction ops arbitrary: s)
  case Nil
  then show ?case by simp
next
  case (Cons x xs)
  obtain c tlog where s: "s = (c, tlog)" by (cases s)
  have inv: "recency_inv n (c, tlog)" using Cons.prems by (simp add: s)
  have "recency_inv n (apply_op x c, tlog @ touched x c)"
    using Cons.prems by (intro recency_inv_step) (auto simp: s)
  then have "set (snd (run_log xs (apply_op x c, tlog @ touched x c)))
               = set (tlog @ touched x c) \<union> set (inserted_keys xs)"
    using Cons by simp
  then show ?case
    unfolding touched_subset[OF inv] inserted_keys_Cons[of x xs] by (simp add: s Un_assoc)
qed

lemma recency_inv_empty: "recency_inv n (empty_cache n, [])"
  by (simp add: recency_inv_def empty_cache_def keys_def lastn_def)

text \<open>
  Claim C1. Take a cache of maximum size \<open>n \<ge> 1\<close>, empty at first, and any sequence of
  \<open>get\<close>, \<open>set\<close> and \<open>has\<close> operations. Afterwards the keys held, in the order of the map,
  are the last \<open>n\<close> distinct keys of the log of touches, ordered by their latest touch.
  A \<open>set\<close> of a key that is not held, when the cache is full, removes exactly the first
  key of the map, and the latest touch of that key is older than the latest touch of
  every other key held. Once more than \<open>n\<close> distinct keys have been inserted the cache
  holds exactly \<open>n\<close> keys, the \<open>n\<close> most recently touched ones.
\<close>

theorem lru_evicts_least_recently_touched:
  assumes "1 \<le> n" and "Clear \<notin> set ops"
    and "run_log ops (empty_cache n, []) = (c, tlog)"
  shows "keys c = lastn (nat n) (remdups tlog) \<and>
         (\<forall>key v. \<not> cache_has c key \<and> cache_size c = n \<longrightarrow>
            (\<exists>oldest rest. keys c = oldest # rest \<and>
               keys (cache_set c key v) = rest @ [key] \<and>
               (\<forall>k \<in> set rest. last_touch tlog oldest < last_touch tlog k))) \<and>
         (nat n < card (set (inserted_keys ops)) \<longrightarrow>
            cache_size c = n \<and> set (keys c) = set (lastn (nat n) (remdups tlog)))"
proof -
  have inv: "recency_inv n (c, tlog)"
    using recency_inv_run[OF assms(1,2) recency_inv_empty[of n]] assms(3) by simp
  then have ms: "maxSize c = n" and ks: "keys c = lastn (nat n) (remdups tlog)"
    by (simp_all add: recency_inv_def)
  have d: "distinct (keys c)" by (simp add: ks distinct_lastn)
  have srt: "sorted_wrt (\<lambda>a b. last_touch tlog a < last_touch tlog b) (keys c)"
    unfolding ks by (rule sorted_lastn[OF sorted_remdups_last_touch])
  have evict: "\<exists>oldest rest. keys c = oldest # rest \<and>
               keys (cache_set c key v) = rest @ [key] \<and>
               (\<forall>k \<in> set rest. last_touch tlog oldest < last_touch tlog k)"
    if nh: "\<not> cache_has c key" and full: "cache_size c = n" for key v
  proof -
    have len: "int (length (keys c)) = n" using full by (simp add: cache_size_def keys_def)
    then have "keys c \<noteq> []" using assms(1) by auto
    then obtain oldest rest where kc: "keys c = oldest # rest" by (cases "keys c") auto
    have f: "filter (\<lambda>x. x \<noteq> key) (keys c) = keys c"
      using nh by (simp add: cache_has_keys filter_neq_id)
    have "keys (cache_set c key v) =
            (if maxSize c \<le> int (length (keys c)) then tl (keys c) else keys c) @ [key]"
      using keys_set[OF d, of key v] unfolding Let_def f .
    then have "keys (cache_set c key v) = rest @ [key]"
      using len by (simp add: ms kc)
    moreover have "\<forall>k \<in> set rest. last_touch tlog oldest < last_touch tlog k"
      using srt by (simp add: kc)
    ultimately show ?thesis using kc by blast
  qed
  have "set tlog = set (inserted_keys ops)"
    using set_log_run[OF assms(1,2) recency_inv_empty[of n]] assms(3) by simp
  then have cd: "card (set (inserted_keys ops)) = length (remdups tlog)"
    by (simp add: length_remdups_card_conv)
  have lk: "length (keys c) = min (nat n) (length (remdups tlog))"
    by (simp add: ks length_lastn)
  have "cache_size c = int (length (keys c))"
    by (simp add: cache_size_def keys_def)
  then have "nat n < card (set (inserted_keys ops)) \<Longrightarrow> cache_size c = n"
    using assms(1) lk cd by simp
  then show ?thesis using ks evict by auto
qed

theorem lru_evicts_least_recently_touched_witness:
  "run_log [Set ''1'' ''a'', Set ''2'' ''b'', Set ''3'' ''c'', Get ''2'', Set ''4'' ''d'']
     (empty_cache 3, [])
     = (\<lparr>cache = [(''3'', ''c''), (''2'', ''b''), (''4'', ''d'')], maxSize = 3, revoked = []\<rparr>,
        [''1'', ''2'', ''3'', ''2'', ''4''])
   \<and> keys \<lparr>cache = [(''3'', ''c''), (''2'', ''b''), (''4'', ''d'')], maxSize = 3, revoked = []\<rparr>
       = lastn (nat 3) (remdups [''1'', ''2'', ''3'', ''2'', ''4''])
   \<and> lastn (nat 3) (remdups [''1'', ''2'', ''3'', ''2'', ''4'']) = [''3'', ''2'', ''4'']"
proof -
  have h1: "(1::int) \<le> 3" by simp
  have h2: "Clear \<notin> set [Set ''1'' ''a'', Set ''2'' ''b'', Set ''3'' ''c'', Get ''2'', Set ''4'' ''d'']"
    by simp
  have h3: "run_log [Set ''1'' ''a'', Set ''2'' ''b'', Set ''3'' ''c'', Get ''2'', Set ''4'' ''d'']
     (empty_cache 3, [])
     = (\<lparr>cache = [(''3'', ''c''), (''2'', ''b''), (''4'', ''d'')], maxSize = 3, revoked = []\<rparr>,
        [''1'', ''2'', ''3'', ''2'', ''4''])"
    by code_simp
  have h4: "lastn (nat 3) (remdups [''1'', ''2'', ''3'', ''2'', ''4'']) = [''3'', ''2'', ''4'']"
    by code_simp
  from lru_evicts_least_recently_touched[OF h1 h2 h3] h3 h4 show ?thesis by blast
qed

lemma cache_size_keys: "cache_size c = int (length (keys c))"
  by (simp add: cache_size_def keys_def)

lemma size_inv_step:
  assumes "1 \<le> n" "size_inv n c"
  shows "size_inv n (apply_op x c)"
proof -
  from assms(2) have ms: "maxSize c = n" and d: "distinct (keys c)"
    and le: "int (length (keys c)) \<le> n"
    by (simp_all add: size_inv_def cache_size_keys)
  show ?thesis
  proof (cases x)
    case (Get k)
    show ?thesis
    proof (cases "cache_has c k")
      case True
      then have "k \<in> set (keys c)" by (simp add: cache_has_keys)
      from length_filter_neq[OF d this] show ?thesis
        using True ms d le by (simp add: Get size_inv_def cache_size_keys keys_get maxSize_get)
    next
      case False
      then show ?thesis
        using ms d le by (simp add: Get size_inv_def cache_size_keys keys_get maxSize_get)
    qed
  next
    case (Set k v)
    define ks where "ks = filter (\<lambda>x. x \<noteq> k) (keys c)"
    have dk: "distinct ks" and nk: "k \<notin> set ks" using d by (simp_all add: ks_def)
    have "length ks \<le> length (keys c)" by (simp add: ks_def)
    then have lk: "int (length ks) \<le> n" using le by linarith
    have kk: "keys (cache_set c k v) = (if n \<le> int (length ks) then tl ks else ks) @ [k]"
      using keys_set[OF d, of k v] by (simp add: Let_def ks_def ms)
    have "distinct (tl ks)" using dk by (simp add: distinct_tl)
    moreover have "k \<notin> set (tl ks)" using nk by (cases ks) auto
    moreover have "n \<le> int (length ks) \<Longrightarrow> int (length (tl ks)) + 1 \<le> n"
      using lk assms(1) by (cases ks) auto
    ultimately show ?thesis
      using dk nk ms by (auto simp: Set size_inv_def cache_size_keys kk maxSize_set)
  next
    case (Has k)
    then show ?thesis using assms(2) by simp
  next
    case Clear
    then show ?thesis using assms(1) ms
      by (simp add: size_inv_def cache_size_keys cache_clear_def keys_def)
  qed
qed

lemma size_inv_run: "1 \<le> n \<Longrightarrow> size_inv n c \<Longrightarrow> size_inv n (run_ops ops c)"
  by (induction ops arbitrary: c) (simp_all add: size_inv_step)

lemma size_inv_empty: "0 \<le> n \<Longrightarrow> size_inv n (empty_cache n)"
  by (simp add: size_inv_def empty_cache_def keys_def cache_size_def)

text \<open>
  Claim C2. For a cache built with maximum size \<open>n \<ge> 1\<close> and every sequence of \<open>get\<close>,
  \<open>set\<close>, \<open>has\<close> and \<open>clear\<close> operations, the size after each operation of the sequence
  (that is, after every prefix of it) is at least 0 and at most \<open>n\<close>.
\<close>

theorem cache_size_bounded:
  assumes "1 \<le> n"
  shows "0 \<le> cache_size (run_ops (take i ops) (empty_cache n)) \<and>
         cache_size (run_ops (take i ops) (empty_cache n)) \<le> n"
proof -
  have "size_inv n (run_ops (take i ops) (empty_cache n))"
    using assms by (intro size_inv_run size_inv_empty) simp_all
  then show ?thesis by (simp add: size_inv_def cache_size_def)
qed

theorem cache_size_bounded_witness:
  "cache_size (run_ops (take 4 [Set ''1'' ''a'', Set ''2'' ''b'', Get ''1'', Set ''3'' ''c'', Clear])
      (empty_cache 2)) = 2 \<and> (2::int) \<le> 2"
proof -
  have h: "(1::int) \<le> 2" by simp
  have "cache_size (run_ops (take 4 [Set ''1'' ''a'', Set ''2'' ''b'', Get ''1'', Set ''3'' ''c'', Clear])
      (empty_cache 2)) = 2" by code_simp
  with cache_size_bounded[OF h, of 4 "[Set ''1'' ''a'', Set ''2'' ''b'', Get ''1'', Set ''3'' ''c'', Clear]"]
  show ?thesis by simp
qed

text \<open>
  Claim C7 says that a maximum size below 1 is rejected with \<open>CacheCapacityInvalid\<close>.
  The constructor has no check: for the maximum size 0 it returns a cache.
\<close>

theorem constructor_rejects_counterexample:
  "(0::int) < 1 \<and> new_ThumbnailLRUCache 0 = Inr \<lparr>cache = [], maxSize = 0, revoked = []\<rparr>"
  by (simp add: new_ThumbnailLRUCache_def empty_cache_def)

text \<open>
  Claim C7, amended. The constructor accepts every maximum size, also one below 1: it
  never returns \<open>CacheCapacityInvalid\<close>, and what it returns is an empty cache with that
  maximum size, which takes a \<open>set\<close> and then holds that entry.
\<close>

theorem constructor_accepts_every_capacity:
  "new_ThumbnailLRUCache n \<noteq> Inl CacheCapacityInvalid \<and>
   new_ThumbnailLRUCache n = Inr (empty_cache n) \<and>
   maxSize (empty_cache n) = n \<and> cache_size (empty_cache n) = 0 \<and>
   cache (cache_set (empty_cache n) k v) = [(k, v)]"
  by (simp add: new_ThumbnailLRUCache_def empty_cache_def cache_size_def cache_set_def
        map_has_def map_set_def Let_def)

section \<open>Properties of the numbers, the quantizer and the preview position\<close>

declare ilog2.simps [simp del]
declare show_digits.simps [simp del]

lemma ilog2_bounds:
  "1 \<le> n \<Longrightarrow> 0 \<le> ilog2 n \<and> 2 ^ nat (ilog2 n) \<le> n \<and> n < 2 * 2 ^ nat (ilog2 n)"
proof (induction n rule: ilog2.induct)
  case (1 n)
  show ?case
  proof (cases "n \<le> 1")
    case True
    with "1.prems" have "n = 1" by simp
    then show ?thesis by (simp add: ilog2.simps[of 1])
  next
    case False
    define m where "m = n div 2"
    have m1: "1 \<le> m" using False by (simp add: m_def)
    have ih: "0 \<le> ilog2 m \<and> 2 ^ nat (ilog2 m) \<le> m \<and> m < 2 * 2 ^ nat (ilog2 m)"
      unfolding m_def by (rule "1.IH"[OF False]) (use m1 in \<open>simp add: m_def\<close>)
    have e: "ilog2 n = 1 + ilog2 m" using False by (simp add: m_def ilog2.simps[of n])
    have k: "nat (1 + ilog2 m) = Suc (nat (ilog2 m))" using ih by (simp add: nat_add_distrib)
    have "2 * m \<le> n" "n < 2 * m + 2" by (simp_all add: m_def)
    then show ?thesis using ih unfolding e k by simp
  qed
qed

lemma clog2_bounds: "1 \<le> n \<Longrightarrow> 0 \<le> clog2 n \<and> n \<le> 2 ^ nat (clog2 n)"
proof (cases "n \<le> 1")
  case True
  then show ?thesis by (simp add: clog2_def)
next
  case False
  then have "1 \<le> n - 1" by simp
  from ilog2_bounds[OF this]
  have b: "0 \<le> ilog2 (n - 1)" "n - 1 < 2 * 2 ^ nat (ilog2 (n - 1))" by simp_all
  have k: "nat (1 + ilog2 (n - 1)) = Suc (nat (ilog2 (n - 1)))"
    using b(1) by (simp add: nat_add_distrib)
  have "clog2 n = 1 + ilog2 (n - 1)" using False by (simp add: clog2_def)
  then show ?thesis using b unfolding k by (simp add: k)
qed

lemma round_half_even_error: "\<bar>of_int (round_half_even y) - y\<bar> \<le> 1 / 2"
proof -
  have a: "of_int \<lfloor>y\<rfloor> \<le> y" "y < of_int \<lfloor>y\<rfloor> + 1" by linarith+
  have b: "of_int \<lfloor>y + 1 / 2\<rfloor> \<le> y + 1 / 2" "y + 1 / 2 < of_int \<lfloor>y + 1 / 2\<rfloor> + 1" by linarith+
  show ?thesis
  proof (cases "y - of_int \<lfloor>y\<rfloor> = 1 / 2")
    case True
    then show ?thesis by (auto simp: round_half_even_def)
  next
    case False
    then have "round_half_even y = \<lfloor>y + 1 / 2\<rfloor>" by (simp add: round_half_even_def)
    then show ?thesis using b by linarith
  qed
qed

lemma round_half_even_of_int: "round_half_even (of_int k) = k"
  by (simp add: round_half_even_def)

lemma exponent_lower:
  assumes "x \<noteq> 0"
  shows "2 powi exponent x \<le> \<bar>x\<bar>"
proof (cases "1 \<le> \<bar>x\<bar>")
  case True
  define n where "n = \<lfloor>\<bar>x\<bar>\<rfloor>"
  have n1: "1 \<le> n" using True by (simp add: n_def le_floor_iff)
  from ilog2_bounds[OF n1] have b: "0 \<le> ilog2 n" "2 ^ nat (ilog2 n) \<le> n" by simp_all
  have "2 powi ilog2 n = (2::real) ^ nat (ilog2 n)" using b(1) by (simp add: power_int_def)
  also have "\<dots> \<le> of_int n" using b(2) by (metis of_int_le_iff of_int_numeral of_int_power)
  also have "\<dots> \<le> \<bar>x\<bar>" by (simp add: n_def)
  finally show ?thesis using True by (simp add: exponent_def n_def)
next
  case False
  define n where "n = \<lceil>1 / \<bar>x\<bar>\<rceil>"
  have x0: "0 < \<bar>x\<bar>" using assms by simp
  have "1 \<le> 1 / \<bar>x\<bar>" using False x0 by simp
  then have n1: "1 \<le> n" unfolding n_def by linarith
  from clog2_bounds[OF n1] have b: "0 \<le> clog2 n" "n \<le> 2 ^ nat (clog2 n)" by simp_all
  have "1 / \<bar>x\<bar> \<le> of_int n" by (simp add: n_def)
  also have "\<dots> \<le> (2::real) ^ nat (clog2 n)"
    using b(2) by (metis of_int_le_iff of_int_numeral of_int_power)
  finally have "1 / \<bar>x\<bar> \<le> (2::real) ^ nat (clog2 n)" .
  then have "1 / 2 ^ nat (clog2 n) \<le> \<bar>x\<bar>"
    using x0 by (simp add: field_simps)
  moreover have "2 powi (- clog2 n) = 1 / (2::real) ^ nat (clog2 n)"
    using b(1) by (simp add: power_int_def field_simps)
  ultimately show ?thesis using False by (simp add: exponent_def n_def)
qed

lemma exponent_upper:
  assumes "x \<noteq> 0"
  shows "\<bar>x\<bar> < 2 powi (exponent x + 1)"
proof (cases "1 \<le> \<bar>x\<bar>")
  case True
  define n where "n = \<lfloor>\<bar>x\<bar>\<rfloor>"
  have n1: "1 \<le> n" using True by (simp add: n_def le_floor_iff)
  from ilog2_bounds[OF n1] have b: "0 \<le> ilog2 n" "n < 2 * 2 ^ nat (ilog2 n)" by simp_all
  have "n + 1 \<le> 2 * 2 ^ nat (ilog2 n)" using b(2) by simp
  then have "of_int (n + 1) \<le> (of_int (2 * 2 ^ nat (ilog2 n)) :: real)"
    by (simp only: of_int_le_iff)
  then have "of_int n + 1 \<le> (2::real) * 2 ^ nat (ilog2 n)" by simp
  moreover have "\<bar>x\<bar> < of_int n + 1" unfolding n_def by linarith
  ultimately have "\<bar>x\<bar> < (2::real) * 2 ^ nat (ilog2 n)" by linarith
  moreover have "2 powi (ilog2 n + 1) = (2::real) * 2 ^ nat (ilog2 n)"
    using b(1) by (simp add: power_int_def nat_add_distrib)
  ultimately show ?thesis using True by (simp add: exponent_def n_def)
next
  case False
  define y where "y = 1 / \<bar>x\<bar>"
  define n where "n = \<lceil>y\<rceil>"
  have x0: "0 < \<bar>x\<bar>" using assms by simp
  have y1: "1 < y" using False x0 by (simp add: y_def)
  then have n2: "2 \<le> n" unfolding n_def by linarith
  then have n1: "1 \<le> n - 1" by simp
  from ilog2_bounds[OF n1] have b: "0 \<le> ilog2 (n - 1)" "2 ^ nat (ilog2 (n - 1)) \<le> n - 1"
    by simp_all
  have c: "clog2 n = 1 + ilog2 (n - 1)" using n2 by (simp add: clog2_def)
  have "of_int (2 ^ nat (ilog2 (n - 1))) \<le> (of_int (n - 1) :: real)"
    using b(2) by (simp only: of_int_le_iff)
  then have "(2::real) ^ nat (ilog2 (n - 1)) \<le> of_int n - 1" by simp
  moreover have "of_int n - 1 < y" unfolding n_def by linarith
  ultimately have "(2::real) ^ nat (ilog2 (n - 1)) < 1 / \<bar>x\<bar>" by (simp add: y_def)
  then have "\<bar>x\<bar> < 1 / 2 ^ nat (ilog2 (n - 1))"
    using x0 by (simp add: field_simps)
  moreover have "2 powi (- clog2 n + 1) = 1 / (2::real) ^ nat (ilog2 (n - 1))"
    using b(1) by (simp add: c power_int_def field_simps)
  ultimately show ?thesis using False by (simp add: exponent_def n_def y_def)
qed

text \<open>The printing of numbers, on values whose JavaScript strings are well known.\<close>

lemma Number_toString_examples:
  "Number_toString 1205 = ''1205''"
  "Number_toString (- 12) = ''-12''"
  "Number_toString (2 ^ 53) = ''9007199254740992''"
  "Number_toString (2 ^ 60) = ''1152921504606847000''"
  "Number_toString (10 ^ 21) = ''1e+21''"
  "Number_toString (2 ^ 70) = ''1.1805916207174113e+21''"
  by code_simp+

lemma fl_examples:
  "fl (1 / 10) = 3602879701896397 / 36028797018963968"
  "fl (3 * fl (1 / 10)) = 1351079888211149 / 4503599627370496"
  "fl (5 / 2) = 5 / 2"
  by code_simp+

lemma ulp_pos: "0 < ulp x"
  by (simp add: ulp_def)


lemma ulp_bound:
  assumes x: "x \<noteq> 0"
  shows "ulp x / 2 \<le> \<bar>x\<bar> / 2 ^ 53 + 1 / 2 ^ 1075"
proof (cases "- 1022 \<le> exponent x")
  case False
  then have "ulp x = 2 powi (- 1074)" by (simp add: ulp_def max_def)
  also have "\<dots> / 2 = 1 / 2 ^ 1075"
    by (simp add: power_int_minus field_simps)
  finally have "ulp x / 2 = 1 / 2 ^ 1075" .
  moreover have "0 \<le> \<bar>x\<bar> / 2 ^ 53" by simp
  ultimately show ?thesis by linarith
next
  case True
  then have "ulp x = 2 powi (exponent x - 52)" by (simp add: ulp_def max_def)
  also have "\<dots> = 2 powi exponent x / 2 ^ 52"
    by (simp add: power_int_diff)
  finally have "ulp x / 2 = 2 powi exponent x / 2 ^ 53" by simp
  also have "\<dots> \<le> \<bar>x\<bar> / 2 ^ 53" using exponent_lower[OF x] by (simp add: divide_right_mono)
  finally show ?thesis by simp
qed

lemma fl_error: "\<bar>fl x - x\<bar> \<le> \<bar>x\<bar> / 2 ^ 53 + 1 / 2 ^ 1075"
proof (cases "x = 0")
  case True
  then show ?thesis by (simp add: fl_def)
next
  case False
  define q where "q = ulp x"
  have q0: "0 < q" by (simp add: q_def ulp_pos)
  have "fl x - x = (of_int (round_half_even (x / q)) - x / q) * q"
    using False q0 by (simp add: fl_def q_def algebra_simps)
  then have "\<bar>fl x - x\<bar> = \<bar>of_int (round_half_even (x / q)) - x / q\<bar> * q"
    using q0 by (simp add: abs_mult)
  also have "\<dots> \<le> 1 / 2 * q"
    using q0 by (intro mult_right_mono round_half_even_error) simp
  also have "\<dots> \<le> \<bar>x\<bar> / 2 ^ 53 + 1 / 2 ^ 1075"
    using ulp_bound[OF False] by (simp add: q_def)
  finally show ?thesis .
qed

text \<open>A cruder form that linear arithmetic can use: the error is at most u * (|x| + 1).\<close>

lemma fl_error': "\<bar>fl x - x\<bar> \<le> (\<bar>x\<bar> + 1) / 2 ^ 53"
proof -
  have "(1::real) / 2 ^ 1075 \<le> 1 / 2 ^ 53"
    by (intro divide_left_mono power_increasing) simp_all
  then show ?thesis using fl_error[of x] by (simp add: add_divide_distrib)
qed

lemma fl_of_int:
  assumes "\<bar>k\<bar> \<le> 2 ^ 53"
  shows "fl (of_int k) = of_int k"
proof (cases "k = 0")
  case True
  then show ?thesis by (simp add: fl_def)
next
  case False
  define n where "n = \<bar>k\<bar>"
  have n1: "1 \<le> n" using False by (simp add: n_def)
  define e where "e = ilog2 n"
  from ilog2_bounds[OF n1] have b: "0 \<le> e" "2 ^ nat e \<le> n" by (simp_all add: e_def)
  have ex: "exponent (of_int k) = e"
    using n1 by (simp add: exponent_def e_def n_def flip: of_int_abs)
  have le: "(2::int) ^ nat e \<le> 2 ^ 53" using b(2) assms by (simp add: n_def)
  have e53: "nat e \<le> 53" by (rule power_le_imp_le_exp[OF _ le]) simp
  have q: "ulp (of_int k) = 2 powi (e - 52)" using b(1) by (simp add: ulp_def ex max_def)
  have "\<exists>j::int. of_int k / (2::real) powi (e - 52) = of_int j"
  proof (cases "e \<le> 52")
    case True
    then have "(2::real) powi (e - 52) = 1 / 2 ^ nat (52 - e)"
      by (simp add: power_int_def field_simps)
    then have "of_int k / (2::real) powi (e - 52) = of_int (k * 2 ^ nat (52 - e))" by simp
    then show ?thesis by blast
  next
    case False
    then have e: "e = 53" using e53 b(1) by linarith
    then have "(2::int) ^ 53 \<le> n" using b(2) by simp
    then have "n = 2 ^ 53" using assms by (simp add: n_def)
    then have "k = 2 ^ 53 \<or> k = - (2 ^ 53)" unfolding n_def by linarith
    then have "of_int k / (2::real) powi (e - 52) = of_int (k div 2)"
      unfolding e by auto
    then show ?thesis by blast
  qed
  then obtain j :: int where j: "of_int k / (2::real) powi (e - 52) = of_int j" by blast
  have "fl (of_int k) = of_int j * 2 powi (e - 52)"
    using False by (simp add: fl_def q j round_half_even_of_int)
  also have "\<dots> = of_int k" using j[symmetric] by simp
  finally show ?thesis .
qed

lemma double_large_is_int:
  assumes "fl x = x" "2 ^ 52 \<le> \<bar>x\<bar>"
  shows "\<exists>k::int. x = of_int k"
proof -
  have x0: "x \<noteq> 0" using assms(2) by auto
  define n where "n = \<lfloor>\<bar>x\<bar>\<rfloor>"
  have n52: "2 ^ 52 \<le> n" using assms(2) unfolding n_def by (simp add: le_floor_iff)
  then have n1: "1 \<le> n" by (smt (verit) one_le_power)
  define e where "e = ilog2 n"
  from ilog2_bounds[OF n1] have b: "0 \<le> e" "n < 2 * 2 ^ nat e" by (simp_all add: e_def)
  have lt: "(2::int) ^ 52 < 2 ^ Suc (nat e)" using n52 b(2) by simp
  have "52 < Suc (nat e)" by (rule power_less_imp_less_exp[OF _ lt]) simp
  then have e52: "52 \<le> e" by linarith
  have "1 \<le> \<bar>x\<bar>" using assms(2) by (smt (verit) one_le_power)
  then have ex: "exponent x = e" by (simp add: exponent_def e_def n_def)
  have q: "ulp x = 2 ^ nat (e - 52)" using e52 by (simp add: ulp_def ex max_def power_int_def)
  have "x = of_int (round_half_even (x / ulp x)) * of_int (2 ^ nat (e - 52))"
    using assms(1) x0 by (simp add: fl_def q)
  then have "x = of_int (round_half_even (x / ulp x) * 2 ^ nat (e - 52))"
    by (simp only: of_int_mult)
  then show ?thesis by blast
qed

lemma fl_error_bound: "\<bar>x\<bar> \<le> B \<Longrightarrow> \<bar>fl x - x\<bar> \<le> (B + 1) / 2 ^ 53"
proof -
  assume "\<bar>x\<bar> \<le> B"
  then have "(\<bar>x\<bar> + 1) / 2 ^ 53 \<le> (B + 1) / 2 ^ 53" by (simp add: divide_right_mono)
  with fl_error'[of x] show ?thesis by linarith
qed

lemma fl_bounds:
  assumes "\<bar>x\<bar> \<le> B"
  shows "x - (B + 1) / 2 ^ 53 \<le> fl x" and "fl x \<le> x + (B + 1) / 2 ^ 53"
  using abs_le_D1[OF fl_error_bound[OF assms]] abs_le_D2[OF fl_error_bound[OF assms]]
  by linarith+

lemma Math_round_nearest: "\<bar>of_int (Math_round q) - q\<bar> \<le> \<bar>of_int j - q\<bar>"
proof -
  define k where "k = Math_round q"
  have lo: "of_int k \<le> q + 1 / 2" and hi: "q + 1 / 2 < of_int k + 1"
    unfolding k_def Math_round_def by linarith+
  consider "j < k" | "j = k" | "k < j" by linarith
  then show ?thesis
  proof cases
    case 1
    then have "(of_int j :: real) \<le> of_int k - 1" by (metis of_int_le_iff of_int_diff of_int_1 zle_diff1_eq)
    then show ?thesis using lo hi unfolding k_def[symmetric] by linarith
  next
    case 2
    then show ?thesis by (simp add: k_def)
  next
    case 3
    then have "(of_int k :: real) + 1 \<le> of_int j" by (metis of_int_le_iff of_int_add of_int_1 zless_imp_add1_zle)
    then show ?thesis using lo hi unfolding k_def[symmetric] by linarith
  qed
qed

lemma roundTime_default:
  assumes "fl time = time"
  shows "roundTime time TIME_PRECISION = of_int (Math_round time)"
proof -
  have "fl (of_int (Math_round time)) = of_int (Math_round time)"
  proof (cases "2 ^ 52 \<le> \<bar>time\<bar>")
    case True
    from double_large_is_int[OF assms True] obtain k :: int where k: "time = of_int k" by blast
    have "Math_round time = k" unfolding k Math_round_def by linarith
    then show ?thesis using assms by (simp add: k)
  next
    case False
    have "of_int (Math_round time) \<le> time + 1 / 2" "time + 1 / 2 < of_int (Math_round time) + 1"
      unfolding Math_round_def by linarith+
    with False have "\<bar>of_int (Math_round time) :: real\<bar> \<le> 2 ^ 52 + 1" by (simp add: abs_if split: if_splits)
    then have "\<bar>of_int (Math_round time) :: real\<bar> \<le> of_int (2 ^ 53)" by simp
    then have "\<bar>Math_round time\<bar> \<le> 2 ^ 53"
      by (metis of_int_abs of_int_le_iff)
    then show ?thesis by (rule fl_of_int)
  qed
  then show ?thesis using assms by (simp add: roundTime_def TIME_PRECISION_def)
qed

text \<open>
  Claim C8 says that ties go to the even multiple. The time 5/2 with precision 1 is
  equally far from 2 and from 3; \<open>roundTime\<close> returns the odd one, 3, where rounding
  half to even returns 2. With a precision other than 1 the result need not even be a
  nearest multiple: for the time 1/4 and the double nearest to 1/10, the product that
  \<open>roundTime\<close> returns is farther from the time than twice the precision is.
\<close>

theorem roundTime_counterexample:
  "roundTime (5 / 2) 1 = 3 \<and> quantize_ties_even (5 / 2) 1 = 2 \<and>
   \<bar>(2::real) - 5 / 2\<bar> = \<bar>3 - 5 / 2\<bar> \<and>
   \<bar>2 * fl (1 / 10) - 1 / 4\<bar> < \<bar>roundTime (1 / 4) (fl (1 / 10)) - 1 / 4\<bar>"
  by code_simp

text \<open>
  Claim C8, amended. With the precision 1, which is the default and the only precision
  the code passes, \<open>roundTime\<close> maps every double \<open>time\<close> to the integer
  \<open>floor (time + 1/2)\<close>: no integer is nearer to the time, and a time that is exactly
  \<open>m + 1/2\<close> goes to \<open>m + 1\<close>, half up and not half to even.
\<close>

theorem roundTime_nearest_ties_up:
  assumes "fl time = time"
  shows "TIME_PRECISION = 1 \<and>
         roundTime time TIME_PRECISION = of_int \<lfloor>time + 1 / 2\<rfloor> \<and>
         (\<forall>j::int. \<bar>roundTime time TIME_PRECISION - time\<bar> \<le> \<bar>of_int j - time\<bar>) \<and>
         (\<forall>m::int. time = of_int m + 1 / 2 \<longrightarrow> roundTime time TIME_PRECISION = of_int m + 1)"
proof -
  have r: "roundTime time TIME_PRECISION = of_int (Math_round time)"
    by (rule roundTime_default[OF assms])
  have tie: "roundTime time TIME_PRECISION = of_int m + 1" if "time = of_int m + 1 / 2" for m :: int
  proof -
    have "Math_round time = m + 1" unfolding that Math_round_def by linarith
    then show ?thesis by (simp add: r)
  qed
  have r': "roundTime time TIME_PRECISION = of_int \<lfloor>time + 1 / 2\<rfloor>"
    using r by (simp add: Math_round_def)
  have near: "\<bar>roundTime time TIME_PRECISION - time\<bar> \<le> \<bar>of_int j - time\<bar>" for j :: int
    unfolding r by (rule Math_round_nearest)
  show ?thesis using tie near r' by (simp add: TIME_PRECISION_def)
qed

theorem roundTime_nearest_ties_up_witness:
  "fl (5 / 2) = 5 / 2 \<and> roundTime (5 / 2) TIME_PRECISION = of_int 2 + 1"
proof -
  have h: "fl (5 / 2) = 5 / 2" by code_simp
  have "(5 / 2 :: real) = of_int 2 + 1 / 2" by simp
  with roundTime_nearest_ties_up[OF h] h show ?thesis by blast
qed

lemma fl_80: "fl 80 = 80"
  using fl_of_int[of 80] by simp

lemma clamped_bounds:
  assumes "160 \<le> w" "w \<le> 2000"
  shows "8000 / w - 252 / 2 ^ 53 \<le> clampedPosition h w"
    and "clampedPosition h w \<le> 100 - 8000 / w + 353 / 2 ^ 53"
proof -
  define m where "m = 8000 / w"
  define a1 where "a1 = fl (80 / w)"
  define minP where "minP = fl (a1 * 100)"
  define maxP where "maxP = fl (100 - minP)"
  define c where "c = clampedPosition h w"
  have w0: "0 < w" using assms by simp
  have m50: "m \<le> 50" using assms w0 by (simp add: m_def divide_le_eq)
  have m4: "4 \<le> m" using assms w0 by (simp add: m_def le_divide_eq)
  have q: "80 / w = m / 100" by (simp add: m_def)
  have b1: "\<bar>m / 100\<bar> \<le> 1 / 2" using m50 m4 by simp
  have e1: "m / 100 - 2 / 2 ^ 53 \<le> a1" "a1 \<le> m / 100 + 2 / 2 ^ 53"
    using fl_bounds[OF b1] unfolding a1_def q by simp_all
  have b2: "\<bar>a1 * 100\<bar> \<le> 51" using e1 m50 m4 by simp
  have e2: "m - 252 / 2 ^ 53 \<le> minP" "minP \<le> m + 252 / 2 ^ 53"
    using fl_bounds[OF b2] e1 unfolding minP_def by simp_all
  have b3: "\<bar>100 - minP\<bar> \<le> 100" using e2 m50 m4 by simp
  have e3: "maxP \<le> 100 - m + 353 / 2 ^ 53"
    using fl_bounds[OF b3] e2 unfolding maxP_def by simp
  have ceq: "c = max minP (min maxP h)"
    by (simp add: c_def clampedPosition_def THUMBNAIL_WIDTH_def Let_def fl_80
          minP_def maxP_def a1_def)
  show "8000 / w - 252 / 2 ^ 53 \<le> clampedPosition h w"
    using e2 unfolding ceq c_def[symmetric] m_def[symmetric] by linarith
  have "minP \<le> 100 - m + 353 / 2 ^ 53" using e2 m50 by linarith
  then show "clampedPosition h w \<le> 100 - 8000 / w + 353 / 2 ^ 53"
    using e3 unfolding c_def[symmetric] m_def[symmetric] ceq by (simp add: max_def min_def)
qed

lemma exact_edges:
  assumes "160 \<le> w" "w \<le> 2000"
  shows "80 - 5040 / 2 ^ 53 \<le> clampedPosition h w / 100 * w"
    and "clampedPosition h w / 100 * w \<le> w - 80 + 7060 / 2 ^ 53"
proof -
  define c where "c = clampedPosition h w"
  have w0: "0 < w" using assms by simp
  note cb = clamped_bounds[OF assms, of h, folded c_def]
  have "(8000 / w - 252 / 2 ^ 53) * w \<le> c * w" using cb(1) w0 by (simp add: mult_right_mono)
  then have l2: "8000 - 252 / 2 ^ 53 * w \<le> c * w" using w0 by (simp add: algebra_simps)
  have "c * w \<le> (100 - 8000 / w + 353 / 2 ^ 53) * w" using cb(2) w0 by (simp add: mult_right_mono)
  then have h2: "c * w \<le> 100 * w - 8000 + 353 / 2 ^ 53 * w" using w0 by (simp add: algebra_simps)
  show "80 - 5040 / 2 ^ 53 \<le> clampedPosition h w / 100 * w"
    using l2 assms unfolding c_def[symmetric] by simp
  show "clampedPosition h w / 100 * w \<le> w - 80 + 7060 / 2 ^ 53"
    using h2 assms unfolding c_def[symmetric] by simp
qed

lemma double_edges:
  assumes "160 \<le> w" "w \<le> 2000"
  shows "- (15100 / 2 ^ 53) \<le> leftEdge (clampedPosition h w) w"
    and "rightEdge (clampedPosition h w) w \<le> w + 17200 / 2 ^ 53"
proof -
  define c where "c = clampedPosition h w"
  define b where "b = fl (c / 100)"
  define x where "x = fl (b * w)"
  have w0: "0 < w" using assms by simp
  note cb = clamped_bounds[OF assms, of h, folded c_def]
  note ee = exact_edges[OF assms, of h, folded c_def]
  have m: "4 \<le> 8000 / w" "8000 / w \<le> 50" using assms w0 by (simp_all add: le_divide_eq divide_le_eq)
  have b1: "\<bar>c / 100\<bar> \<le> 1" using cb m by simp
  have e1: "c / 100 - 2 / 2 ^ 53 \<le> b" "b \<le> c / 100 + 2 / 2 ^ 53"
    using fl_bounds[OF b1] unfolding b_def by simp_all
  have "(c / 100 - 2 / 2 ^ 53) * w \<le> b * w" using e1(1) w0 by (simp add: mult_right_mono)
  then have l1: "c / 100 * w - 4000 / 2 ^ 53 \<le> b * w" using assms by (simp add: algebra_simps)
  have "b * w \<le> (c / 100 + 2 / 2 ^ 53) * w" using e1(2) w0 by (simp add: mult_right_mono)
  then have h1: "b * w \<le> c / 100 * w + 4000 / 2 ^ 53" using assms by (simp add: algebra_simps)
  have b2: "\<bar>b * w\<bar> \<le> 2000" using l1 h1 ee assms by simp
  have e2: "b * w - 2001 / 2 ^ 53 \<le> x" "x \<le> b * w + 2001 / 2 ^ 53"
    using fl_bounds[OF b2] unfolding x_def by simp_all
  have b3: "\<bar>x - 80\<bar> \<le> 2000" using e2 l1 h1 ee assms by simp
  have b4: "\<bar>x + 80\<bar> \<le> 2100" using e2 l1 h1 ee assms by simp
  have cx: "centerX c w = x" by (simp add: centerX_def x_def b_def)
  have hw: "fl (THUMBNAIL_WIDTH / 2) = 80" by (simp add: THUMBNAIL_WIDTH_def fl_80)
  show "- (15100 / 2 ^ 53) \<le> leftEdge (clampedPosition h w) w"
    using fl_bounds(1)[OF b3] e2 l1 ee unfolding c_def[symmetric] leftEdge_def cx hw by simp
  show "rightEdge (clampedPosition h w) w \<le> w + 17200 / 2 ^ 53"
    using fl_bounds(2)[OF b4] e2 h1 ee unfolding c_def[symmetric] rightEdge_def cx hw by simp
qed

text \<open>
  Claim C9 states the bounds without a tolerance. For the position 0 and the width 168,
  both within the ranges of the claim, the left edge of the preview is below 0, computed
  exactly from the returned position and also computed in doubles.
\<close>

theorem preview_within_container_counterexample:
  "(-50::real) \<le> 0 \<and> (0::real) \<le> 150 \<and> (160::real) \<le> 168 \<and> (168::real) \<le> 2000 \<and>
   clampedPosition 0 168 / 100 * 168 - 80 < 0 \<and>
   leftEdge (clampedPosition 0 168) 168 < 0"
  by code_simp

text \<open>
  Claim C9, amended. For a hover position between -50 and 150 percent and a container
  between 160 and 2000 pixels wide, the clamped position, taken as a pixel centre and
  widened by 80 pixels to each side, stays within the container up to a tolerance of
  \<open>10^-11\<close> pixels. That holds for the edges computed exactly from the returned position
  and for the edges computed in doubles.
\<close>

theorem preview_within_container:
  assumes "-50 \<le> hoverPercent" "hoverPercent \<le> 150"
    and "160 \<le> containerWidth" "containerWidth \<le> 2000"
  shows "- (1 / 10 ^ 11) \<le> clampedPosition hoverPercent containerWidth / 100 * containerWidth - 80 \<and>
         clampedPosition hoverPercent containerWidth / 100 * containerWidth + 80
           \<le> containerWidth + 1 / 10 ^ 11 \<and>
         - (1 / 10 ^ 11) \<le> leftEdge (clampedPosition hoverPercent containerWidth) containerWidth \<and>
         rightEdge (clampedPosition hoverPercent containerWidth) containerWidth
           \<le> containerWidth + 1 / 10 ^ 11"
  using exact_edges[OF assms(3,4), of hoverPercent] double_edges[OF assms(3,4), of hoverPercent]
  by simp

theorem preview_within_container_witness:
  "- (1 / 10 ^ 11) \<le> clampedPosition 0 168 / 100 * 168 - 80 \<and>
   rightEdge (clampedPosition 0 168) 168 \<le> (168::real) + 1 / 10 ^ 11"
proof -
  have "(-50::real) \<le> 0" "(0::real) \<le> 150" "(160::real) \<le> 168" "(168::real) \<le> 2000"
    by simp_all
  from preview_within_container[OF this] show ?thesis by blast
qed

section \<open>Properties of the hook\<close>

lemma update_video_fields [simp]:
  "videoSrc (update_video vid f st) = videoSrc st"
  "enabled (update_video vid f st) = enabled st"
  "isBrowser (update_video vid f st) = isBrowser st"
  "thumbnailUrl (update_video vid f st) = thumbnailUrl st"
  "isLoading (update_video vid f st) = isLoading st"
  "error (update_video vid f st) = error st"
  "videoRef (update_video vid f st) = videoRef st"
  "canvasRef (update_video vid f st) = canvasRef st"
  "cacheRef (update_video vid f st) = cacheRef st"
  "debounceTimeoutRef (update_video vid f st) = debounceTimeoutRef st"
  "pendingTimeRef (update_video vid f st) = pendingTimeRef st"
  "currentVideoSrcRef (update_video vid f st) = currentVideoSrcRef st"
  "timers (update_video vid f st) = timers st"
  "now (update_video vid f st) = now st"
  "nextTimer (update_video vid f st) = nextTimer st"
  "nextCapture (update_video vid f st) = nextCapture st"
  "cleanupSet (update_video vid f st) = cleanupSet st"
  "attempts (update_video vid f st) = attempts st"
  "length (videos (update_video vid f st)) = length (videos st)"
  by (simp_all add: update_video_def)

lemma listeners_of_update_video:
  "listeners_of (update_video vid f st) v =
     (if v = vid \<and> vid < length (videos st) then listeners (f (videos st ! vid))
      else listeners_of st v)"
  by (simp add: listeners_of_def update_video_def)

text \<open>
  Claim C10. When generation is disabled or no video source is bound (the prop is
  \<open>undefined\<close> or the empty string), \<open>generateThumbnail\<close> returns the state it was given:
  no timeout is set or cleared, the cache is not touched, and \<open>thumbnailUrl\<close>, \<open>isLoading\<close>
  and \<open>error\<close> keep their values, so no error is reported.
\<close>

theorem generateThumbnail_guard:
  assumes "\<not> enabled st \<or> \<not> truthy (videoSrc st)"
  shows "generateThumbnail time st = st"
  using assms by (auto simp: generateThumbnail_def)

theorem generateThumbnail_guard_witness:
  "\<not> truthy (videoSrc (initial None True True)) \<and>
   generateThumbnail 3 (initial None True True) = initial None True True"
proof -
  have h: "\<not> truthy (videoSrc (initial None True True))"
    by (simp add: initial_def truthy_def)
  then have "\<not> enabled (initial None True True) \<or> \<not> truthy (videoSrc (initial None True True))"
    by simp
  from generateThumbnail_guard[OF this] h show ?thesis by simp
qed

lemma handleSeeked_failure:
  assumes "\<not> truthy (captureThumbnail st r)"
  shows "cacheRef (handleSeeked vid cid key r st) = cacheRef st"
    and "error (handleSeeked vid cid key r st) = Some ''Failed to capture thumbnail''"
    and "thumbnailUrl (handleSeeked vid cid key r st) = None"
    and "\<not> isLoading (handleSeeked vid cid key r st)"
  using assms by (simp_all add: handleSeeked_def removeEventListeners_def Let_def)

lemma handleError_effect:
  shows "cacheRef (handleError vid cid st) = cacheRef st"
    and "error (handleError vid cid st) = Some ''Failed to load video for thumbnail''"
    and "thumbnailUrl (handleError vid cid st) = None"
    and "\<not> isLoading (handleError vid cid st)"
  by (simp_all add: handleError_def removeEventListeners_def)

text \<open>
  Claim C6. A capture fails when \<open>handleSeeked\<close> gets no image from \<open>captureThumbnail\<close>
  (the frame may not be read, no context, no element) or when \<open>handleError\<close> runs. Either
  handler then leaves the cache as it was, sets \<open>error\<close>, sets \<open>thumbnailUrl\<close> to null and
  sets \<open>isLoading\<close> to false.
\<close>

theorem capture_failure_leaves_cache:
  "(\<not> truthy (captureThumbnail st r) \<longrightarrow>
      cacheRef (handleSeeked vid cid key r st) = cacheRef st \<and>
      error (handleSeeked vid cid key r st) \<noteq> None \<and>
      thumbnailUrl (handleSeeked vid cid key r st) = None \<and>
      \<not> isLoading (handleSeeked vid cid key r st)) \<and>
   cacheRef (handleError vid cid st) = cacheRef st \<and>
   error (handleError vid cid st) \<noteq> None \<and>
   thumbnailUrl (handleError vid cid st) = None \<and>
   \<not> isLoading (handleError vid cid st)"
  by (simp add: handleSeeked_failure handleError_effect)

theorem capture_failure_leaves_cache_witness:
  "\<not> truthy (captureThumbnail
       (run [GenerateThumbnail 1, Advance 100] (mount (Some ''v'') True True)) DrawThrows) \<and>
   thumbnailUrl (handleSeeked 0 0 ''v:1'' DrawThrows
       (run [GenerateThumbnail 1, Advance 100] (mount (Some ''v'') True True))) = None"
proof -
  have h: "\<not> truthy (captureThumbnail
       (run [GenerateThumbnail 1, Advance 100] (mount (Some ''v'') True True)) DrawThrows)"
    by (simp add: captureThumbnail_def truthy_def)
  with capture_failure_leaves_cache[of "run [GenerateThumbnail 1, Advance 100] (mount (Some ''v'') True True)"
      DrawThrows 0 0 "''v:1''"]
  show ?thesis by blast
qed

lemma timeoutCallback_fields:
  "enabled (timeoutCallback vs st) = enabled st"
  "videoSrc (timeoutCallback vs st) = videoSrc st"
  "isBrowser (timeoutCallback vs st) = isBrowser st"
  "timers (timeoutCallback vs st) = timers st"
  "now (timeoutCallback vs st) = now st"
  "debounceTimeoutRef (timeoutCallback vs st) = debounceTimeoutRef st"
  "pendingTimeRef (timeoutCallback vs st) = pendingTimeRef st"
  "videoRef (timeoutCallback vs st) = videoRef st"
  "length (videos (timeoutCallback vs st)) = length (videos st)"
  by (simp_all add: timeoutCallback_def addEventListeners_def Let_def split: option.splits)

lemma timeoutCallback_attempts:
  "pendingTimeRef st = Some p \<Longrightarrow> attempts (timeoutCallback vs st) = attempts st @ [p]"
  by (simp add: timeoutCallback_def addEventListeners_def Let_def split: option.splits)

lemma timeoutCallback_miss:
  assumes "pendingTimeRef st = Some t" "videoRef st = Some video" "video < length (videos st)"
    and "\<not> truthy (fst (cache_get (cacheRef st) (getCacheKey vs t)))"
  shows "listeners_of (timeoutCallback vs st) video
           = listeners_of st video @ [(nextCapture st, getCacheKey vs t)]"
    and "currentTime (videos (timeoutCallback vs st) ! video) = roundTime t TIME_PRECISION"
    and "isLoading (timeoutCallback vs st)"
    and "nextCapture (timeoutCallback vs st) = Suc (nextCapture st)"
    and "cacheRef (timeoutCallback vs st) = snd (cache_get (cacheRef st) (getCacheKey vs t))"
  using assms
  by (simp_all add: timeoutCallback_def addEventListeners_def Let_def listeners_of_def
        update_video_def)

lemma timeoutCallback_hit:
  assumes "pendingTimeRef st = Some t"
    and "truthy (fst (cache_get (cacheRef st) (getCacheKey vs t)))"
  shows "thumbnailUrl (timeoutCallback vs st) = fst (cache_get (cacheRef st) (getCacheKey vs t))"
    and "\<not> isLoading (timeoutCallback vs st)"
    and "videos (timeoutCallback vs st) = videos st"
  using assms by (simp_all add: timeoutCallback_def Let_def)

lemma generateThumbnail_arms:
  assumes "ready st"
    and "timers st = [] \<or> (\<exists>h d vs. timers st = [(h, d, vs)] \<and> debounceTimeoutRef st = Some h)"
  shows "armed (generateThumbnail time st) time"
  using assms
  by (auto simp: generateThumbnail_def armed_def ready_def clearTimeout_def Let_def
           split: option.splits)

lemma generateThumbnail_fields:
  "attempts (generateThumbnail time st) = attempts st"
  "cacheRef (generateThumbnail time st) = cacheRef st"
  "videos (generateThumbnail time st) = videos st"
  "videoRef (generateThumbnail time st) = videoRef st"
  "nextCapture (generateThumbnail time st) = nextCapture st"
  "videoSrc (generateThumbnail time st) = videoSrc st"
  by (simp_all add: generateThumbnail_def clearTimeout_def Let_def split: option.splits)

lemma listeners_of_generateThumbnail:
  "listeners_of (generateThumbnail time st) v = listeners_of st v"
  by (simp add: listeners_of_def generateThumbnail_fields)

lemma advance_fires_eq:
  assumes "armed st p" "DEBOUNCE_DELAY \<le> g"
  shows "advance g st = timeoutCallback (the (videoSrc st)) (st\<lparr>now := now st + g, timers := []\<rparr>)"
  using assms
  by (auto simp: armed_def advance_def fire_def clearTimeout_def Let_def)

lemma advance_fires:
  assumes "armed st p" "DEBOUNCE_DELAY \<le> g"
  shows "ready (advance g st)" and "timers (advance g st) = []"
    and "attempts (advance g st) = attempts st @ [p]"
  using assms unfolding advance_fires_eq[OF assms]
  by (simp_all add: armed_def timeoutCallback_fields timeoutCallback_attempts ready_def)

lemma advance_early:
  assumes "armed st p" "g < DEBOUNCE_DELAY"
  shows "advance g st = st\<lparr>now := now st + g\<rparr>"
  using assms by (auto simp: armed_def advance_def Let_def)

lemma run_Cons: "run (e # evs) st = run evs (step e st)"
  by (simp add: run_def)

lemma run_snoc: "run (evs @ [e]) st = step e (run evs st)"
  by (simp add: run_def)

lemma debounce_coalesce:
  assumes "armed st p" "DEBOUNCE_DELAY \<le> w"
  shows "attempts (run (burst calls @ [Advance w]) st) = attempts st @ coalesce p calls"
  using assms(1)
proof (induction calls arbitrary: st p)
  case Nil
  then show ?case using advance_fires(3)[OF Nil assms(2)] by (simp add: run_def)
next
  case (Cons c calls)
  obtain g t where c: "c = (g, t)" by (cases c)
  define st1 where "st1 = advance g st"
  define st2 where "st2 = generateThumbnail t st1"
  have r: "run (burst (c # calls) @ [Advance w]) st = run (burst calls @ [Advance w]) st2"
    by (simp add: c run_Cons st1_def st2_def)
  have at: "attempts st2 = attempts st1" by (simp add: st2_def generateThumbnail_fields)
  show ?case
  proof (cases "DEBOUNCE_DELAY \<le> g")
    case True
    note f = advance_fires[OF Cons.prems True, folded st1_def]
    have a2: "armed st2 t"
      unfolding st2_def using f(1,2) by (simp add: generateThumbnail_arms)
    show ?thesis
      unfolding r Cons.IH[OF a2] using True by (simp add: c at f(3))
  next
    case False
    then have e: "st1 = st\<lparr>now := now st + g\<rparr>"
      unfolding st1_def using advance_early[OF Cons.prems] by simp
    have rd: "ready st1" using Cons.prems by (simp add: e armed_def ready_def)
    have tm: "\<exists>h d vs. timers st1 = [(h, d, vs)] \<and> debounceTimeoutRef st1 = Some h"
      using Cons.prems by (auto simp: e armed_def)
    have a2: "armed st2 t"
      unfolding st2_def using rd tm by (simp add: generateThumbnail_arms)
    show ?thesis
      unfolding r Cons.IH[OF a2] using False by (simp add: c at e)
  qed
qed

lemma coalesce_rapid:
  "\<forall>c \<in> set calls. fst c < DEBOUNCE_DELAY \<Longrightarrow> coalesce p calls = [last (p # map snd calls)]"
  by (induction calls arbitrary: p) auto

lemma coalesce_spaced:
  "\<forall>c \<in> set calls. DEBOUNCE_DELAY < fst c \<Longrightarrow> coalesce p calls = p # map snd calls"
  by (induction calls arbitrary: p) auto

text \<open>
  A burst whose gaps are all shorter than the delay leaves a timeout pending for its
  last time and changes nothing that the timeout callback reads.
\<close>

lemma rapid_burst:
  assumes "armed st p" "\<forall>c \<in> set calls. fst c < DEBOUNCE_DELAY"
  shows "armed (run (burst calls) st) (last (p # map snd calls)) \<and>
         cacheRef (run (burst calls) st) = cacheRef st \<and>
         videos (run (burst calls) st) = videos st \<and>
         videoRef (run (burst calls) st) = videoRef st \<and>
         nextCapture (run (burst calls) st) = nextCapture st \<and>
         videoSrc (run (burst calls) st) = videoSrc st"
  using assms
proof (induction calls arbitrary: st p)
  case Nil
  then show ?case by (simp add: run_def)
next
  case (Cons c calls)
  obtain g t where c: "c = (g, t)" by (cases c)
  define st1 where "st1 = advance g st"
  define st2 where "st2 = generateThumbnail t st1"
  have r: "run (burst (c # calls)) st = run (burst calls) st2"
    by (simp add: c run_Cons st1_def st2_def)
  have g: "g < DEBOUNCE_DELAY" using Cons.prems(2) by (simp add: c)
  have e: "st1 = st\<lparr>now := now st + g\<rparr>"
    unfolding st1_def by (rule advance_early[OF Cons.prems(1) g])
  have rd: "ready st1" using Cons.prems(1) by (simp add: e armed_def ready_def)
  have tm: "\<exists>h d vs. timers st1 = [(h, d, vs)] \<and> debounceTimeoutRef st1 = Some h"
    using Cons.prems(1) by (auto simp: e armed_def)
  have a2: "armed st2 t"
    unfolding st2_def using rd tm by (simp add: generateThumbnail_arms)
  have rest: "\<forall>c \<in> set calls. fst c < DEBOUNCE_DELAY" using Cons.prems(2) by simp
  have f: "cacheRef st2 = cacheRef st" "videos st2 = videos st" "videoRef st2 = videoRef st"
    "nextCapture st2 = nextCapture st" "videoSrc st2 = videoSrc st"
    by (simp_all add: st2_def generateThumbnail_fields e)
  show ?case unfolding r using Cons.IH[OF a2 rest] by (simp add: f c)
qed

text \<open>
  With none of the keys in the cache, every run of the timeout callback starts a
  capture: the listeners it attaches are numbered from \<open>nextCapture\<close>.
\<close>

lemma cache_get_miss:
  assumes "\<not> cache_has c k"
  shows "cache_get c k = (None, c)"
proof -
  have "map_of (cache c) k = None"
    using assms by (simp add: cache_has_def map_has_def map_of_eq_None_iff)
  then show ?thesis by (simp add: cache_get_def map_get_def)
qed

lemma coalesce_captures:
  assumes "DEBOUNCE_DELAY \<le> w"
    and "armed st p" "videoRef st = Some video" "video < length (videos st)"
    and "\<forall>t \<in> set (p # map snd calls). \<not> cache_has (cacheRef st) (getCacheKey (the (videoSrc st)) t)"
  shows "listeners_of (run (burst calls @ [Advance w]) st) video
           = listeners_of st video
             @ enumerate (nextCapture st) (map (getCacheKey (the (videoSrc st))) (coalesce p calls)) \<and>
         currentTime (videos (run (burst calls @ [Advance w]) st) ! video)
           = roundTime (last (p # map snd calls)) TIME_PRECISION"
  using assms(2-)
proof (induction calls arbitrary: st p)
  case Nil
  define s where "s = st\<lparr>now := now st + w, timers := []\<rparr>"
  have r: "run (burst [] @ [Advance w]) st = timeoutCallback (the (videoSrc st)) s"
    using advance_fires_eq[OF Nil(1) assms(1)] by (simp add: run_def s_def)
  have p: "pendingTimeRef s = Some p" using Nil(1) by (simp add: s_def armed_def)
  have m: "\<not> truthy (fst (cache_get (cacheRef s) (getCacheKey (the (videoSrc st)) p)))"
    using Nil(4) by (simp add: s_def cache_get_miss truthy_def)
  have v: "videoRef s = Some video" "video < length (videos s)"
    using Nil(2,3) by (simp_all add: s_def)
  show ?case unfolding r using timeoutCallback_miss(1,2)[OF p v m]
    by (simp add: s_def listeners_of_def)
next
  case (Cons c calls)
  obtain g t where c: "c = (g, t)" by (cases c)
  define vs where "vs = the (videoSrc st)"
  define st1 where "st1 = advance g st"
  define st2 where "st2 = generateThumbnail t st1"
  have r: "run (burst (c # calls) @ [Advance w]) st = run (burst calls @ [Advance w]) st2"
    by (simp add: c run_Cons st1_def st2_def)
  have keys: "\<forall>t' \<in> set (t # map snd calls). \<not> cache_has (cacheRef st) (getCacheKey vs t')"
    using Cons.prems(4) by (simp add: c vs_def)
  show ?case
  proof (cases "DEBOUNCE_DELAY \<le> g")
    case True
    define s where "s = st\<lparr>now := now st + g, timers := []\<rparr>"
    have e: "st1 = timeoutCallback vs s"
      unfolding st1_def vs_def s_def by (rule advance_fires_eq[OF Cons.prems(1) True])
    have p: "pendingTimeRef s = Some p" using Cons.prems(1) by (simp add: s_def armed_def)
    have m: "\<not> cache_has (cacheRef s) (getCacheKey vs p)"
      using Cons.prems(4) by (simp add: s_def vs_def)
    then have m': "\<not> truthy (fst (cache_get (cacheRef s) (getCacheKey vs p)))"
      by (simp add: cache_get_miss truthy_def)
    have v: "videoRef s = Some video" "video < length (videos s)"
      using Cons.prems(2,3) by (simp_all add: s_def)
    note tc = timeoutCallback_miss[OF p v m', folded e]
    have l1: "listeners_of st1 video = listeners_of st video @ [(nextCapture st, getCacheKey vs p)]"
      using tc(1) by (simp add: s_def listeners_of_def)
    have n1: "nextCapture st1 = Suc (nextCapture st)" using tc(4) by (simp add: s_def)
    have c1: "cacheRef st1 = cacheRef st" using tc(5) m by (simp add: cache_get_miss) (simp add: s_def)
    have vr1: "videoRef st1 = Some video" "video < length (videos st1)"
      using v by (simp_all add: e timeoutCallback_fields)
    have vs1: "videoSrc st1 = videoSrc st" by (simp add: e timeoutCallback_fields s_def)
    note f = advance_fires[OF Cons.prems(1) True, folded st1_def]
    have a2: "armed st2 t" unfolding st2_def using f(1,2) by (simp add: generateThumbnail_arms)
    have h2: "videoRef st2 = Some video" "video < length (videos st2)"
      "\<forall>t' \<in> set (t # map snd calls). \<not> cache_has (cacheRef st2) (getCacheKey (the (videoSrc st2)) t')"
      using vr1 keys by (simp_all add: st2_def generateThumbnail_fields c1 vs1 vs_def)
    have l2: "listeners_of st2 video = listeners_of st1 video"
      by (simp add: st2_def listeners_of_generateThumbnail)
    have n2: "nextCapture st2 = nextCapture st1" "the (videoSrc st2) = vs"
      by (simp_all add: st2_def generateThumbnail_fields vs1 vs_def)
    show ?thesis unfolding r using Cons.IH[OF a2 h2] True
      by (simp add: l2 l1 n2 n1 c vs_def[symmetric])
  next
    case False
    then have e: "st1 = st\<lparr>now := now st + g\<rparr>"
      unfolding st1_def using advance_early[OF Cons.prems(1)] by simp
    have rd: "ready st1" using Cons.prems(1) by (simp add: e armed_def ready_def)
    have tm: "\<exists>h d vs. timers st1 = [(h, d, vs)] \<and> debounceTimeoutRef st1 = Some h"
      using Cons.prems(1) by (auto simp: e armed_def)
    have a2: "armed st2 t" unfolding st2_def using rd tm by (simp add: generateThumbnail_arms)
    have h2: "videoRef st2 = Some video" "video < length (videos st2)"
      "\<forall>t' \<in> set (t # map snd calls). \<not> cache_has (cacheRef st2) (getCacheKey (the (videoSrc st2)) t')"
      using Cons.prems(2,3) keys by (simp_all add: st2_def generateThumbnail_fields e vs_def)
    have l2: "listeners_of st2 video = listeners_of st video"
      by (simp add: st2_def listeners_of_generateThumbnail) (simp add: e listeners_of_def)
    have n2: "nextCapture st2 = nextCapture st" "the (videoSrc st2) = vs"
      by (simp_all add: st2_def generateThumbnail_fields e vs_def)
    show ?thesis unfolding r using Cons.IH[OF a2 h2] False
      by (simp add: l2 n2 c vs_def[symmetric])
  qed
qed

text \<open>
  Claim C3. Start with generation enabled, the source \<open>vs\<close> bound and no timeout pending.
  A first call is followed by further calls, each with the time since the call before
  it, and then at least the debounce delay passes; timeouts fire exactly when they are
  due.

  If every gap is shorter than the delay, the timeout callback runs exactly once more,
  for the time of the last call, and that run is the capture attempt for the last time:
  if the cache holds a thumbnail under the key of the last time, it becomes
  \<open>thumbnailUrl\<close> and no element is touched; if not, one pair of listeners with that key
  is attached to the video element, the element is sent to the rounded last time and
  \<open>isLoading\<close> is set.

  If every gap is longer than the delay, the callback runs once for every call, in
  order; when none of the keys is in the cache, every run attaches its own pair of
  listeners with the key of its own time, numbered from \<open>nextCapture\<close>, and the element
  ends at the rounded last time.
\<close>

theorem debounce_one_attempt_per_burst:
  assumes "ready st" and "videoSrc st = Some vs" and "timers st = []"
    and "DEBOUNCE_DELAY \<le> w"
    and "final = run (GenerateThumbnail t0 # burst calls @ [Advance w]) st"
    and "ts = t0 # map snd calls"
  shows "((\<forall>c \<in> set calls. fst c < DEBOUNCE_DELAY) \<longrightarrow>
            attempts final = attempts st @ [last ts] \<and>
            (truthy (fst (cache_get (cacheRef st) (getCacheKey vs (last ts)))) \<longrightarrow>
               thumbnailUrl final = fst (cache_get (cacheRef st) (getCacheKey vs (last ts))) \<and>
               \<not> isLoading final \<and> videos final = videos st) \<and>
            (\<not> truthy (fst (cache_get (cacheRef st) (getCacheKey vs (last ts)))) \<and>
             videoRef st = Some video \<and> video < length (videos st) \<longrightarrow>
               listeners_of final video
                 = listeners_of st video @ [(nextCapture st, getCacheKey vs (last ts))] \<and>
               currentTime (videos final ! video) = roundTime (last ts) TIME_PRECISION \<and>
               isLoading final)) \<and>
         ((\<forall>c \<in> set calls. DEBOUNCE_DELAY < fst c) \<longrightarrow>
            attempts final = attempts st @ ts \<and>
            ((\<forall>t \<in> set ts. \<not> cache_has (cacheRef st) (getCacheKey vs t)) \<and>
             videoRef st = Some video \<and> video < length (videos st) \<longrightarrow>
               listeners_of final video
                 = listeners_of st video
                   @ enumerate (nextCapture st) (map (getCacheKey vs) ts) \<and>
               currentTime (videos final ! video) = roundTime (last ts) TIME_PRECISION))"
proof -
  define st0 where "st0 = generateThumbnail t0 st"
  have a: "armed st0 t0" unfolding st0_def using assms(1,3) by (simp add: generateThumbnail_arms)
  note gf = generateThumbnail_fields[of t0 st, folded st0_def]
  have vs0: "the (videoSrc st0) = vs" by (simp add: gf assms(2))
  have fin: "final = run (burst calls @ [Advance w]) st0"
    by (simp add: assms(5) run_Cons st0_def)
  have att: "attempts final = attempts st @ coalesce t0 calls"
    unfolding fin using debounce_coalesce[OF a assms(4), of calls] by (simp add: gf)
  have rapid: "attempts final = attempts st @ [last ts] \<and>
            (truthy (fst (cache_get (cacheRef st) (getCacheKey vs (last ts)))) \<longrightarrow>
               thumbnailUrl final = fst (cache_get (cacheRef st) (getCacheKey vs (last ts))) \<and>
               \<not> isLoading final \<and> videos final = videos st) \<and>
            (\<not> truthy (fst (cache_get (cacheRef st) (getCacheKey vs (last ts)))) \<and>
             videoRef st = Some video \<and> video < length (videos st) \<longrightarrow>
               listeners_of final video
                 = listeners_of st video @ [(nextCapture st, getCacheKey vs (last ts))] \<and>
               currentTime (videos final ! video) = roundTime (last ts) TIME_PRECISION \<and>
               isLoading final)"
    if r: "\<forall>c \<in> set calls. fst c < DEBOUNCE_DELAY"
  proof -
    define s1 where "s1 = run (burst calls) st0"
    define s where "s = s1\<lparr>now := now s1 + w, timers := []\<rparr>"
    from rapid_burst[OF a r] have b: "armed s1 (last ts)" "cacheRef s1 = cacheRef st"
      "videos s1 = videos st" "videoRef s1 = videoRef st" "nextCapture s1 = nextCapture st"
      "videoSrc s1 = videoSrc st"
      by (simp_all add: s1_def assms(6) gf)
    have f: "final = timeoutCallback vs s"
      unfolding fin run_snoc s_def s1_def[symmetric]
      using advance_fires_eq[OF b(1) assms(4)] by (simp add: b(6) assms(2))
    have p: "pendingTimeRef s = Some (last ts)" using b(1) by (simp add: s_def armed_def)
    have cs: "cacheRef s = cacheRef st" "videos s = videos st" "videoRef s = videoRef st"
      "nextCapture s = nextCapture st" "listeners_of s video = listeners_of st video"
      by (simp_all add: s_def b listeners_of_def)
    have "attempts final = attempts st @ [last ts]"
      using att coalesce_rapid[OF r, of t0] by (simp add: assms(6))
    moreover have "thumbnailUrl final = fst (cache_get (cacheRef st) (getCacheKey vs (last ts))) \<and>
               \<not> isLoading final \<and> videos final = videos st"
      if "truthy (fst (cache_get (cacheRef st) (getCacheKey vs (last ts))))"
      unfolding f using timeoutCallback_hit[OF p, of vs] that by (simp add: cs)
    moreover have "listeners_of final video
                 = listeners_of st video @ [(nextCapture st, getCacheKey vs (last ts))] \<and>
               currentTime (videos final ! video) = roundTime (last ts) TIME_PRECISION \<and>
               isLoading final"
      if "\<not> truthy (fst (cache_get (cacheRef st) (getCacheKey vs (last ts))))"
        "videoRef st = Some video" "video < length (videos st)"
      unfolding f using timeoutCallback_miss[OF p, of video vs] that by (simp add: cs)
    ultimately show ?thesis by blast
  qed
  have spaced: "attempts final = attempts st @ ts \<and>
            ((\<forall>t \<in> set ts. \<not> cache_has (cacheRef st) (getCacheKey vs t)) \<and>
             videoRef st = Some video \<and> video < length (videos st) \<longrightarrow>
               listeners_of final video
                 = listeners_of st video
                   @ enumerate (nextCapture st) (map (getCacheKey vs) ts) \<and>
               currentTime (videos final ! video) = roundTime (last ts) TIME_PRECISION)"
    if r: "\<forall>c \<in> set calls. DEBOUNCE_DELAY < fst c"
  proof -
    have co: "coalesce t0 calls = ts" using coalesce_spaced[OF r, of t0] by (simp add: assms(6))
    have "listeners_of final video
                 = listeners_of st video
                   @ enumerate (nextCapture st) (map (getCacheKey vs) ts) \<and>
               currentTime (videos final ! video) = roundTime (last ts) TIME_PRECISION"
      if h: "\<forall>t \<in> set ts. \<not> cache_has (cacheRef st) (getCacheKey vs t)"
        "videoRef st = Some video" "video < length (videos st)"
    proof -
      have h0: "videoRef st0 = Some video" "video < length (videos st0)"
        "\<forall>t \<in> set (t0 # map snd calls).
           \<not> cache_has (cacheRef st0) (getCacheKey (the (videoSrc st0)) t)"
        using h by (simp_all add: gf assms(2) assms(6))
      note lg = listeners_of_generateThumbnail[of t0 st video, folded st0_def]
      from coalesce_captures[OF assms(4) a h0] show ?thesis
        unfolding fin by (simp add: co gf lg assms(2) assms(6)[symmetric])
    qed
    then show ?thesis using att co by simp
  qed
  show ?thesis using rapid spaced by blast
qed

theorem debounce_one_attempt_per_burst_witness:
  "attempts (run (GenerateThumbnail 1 # burst [(30, 2), (99, 3)] @ [Advance 100])
              (mount (Some ''v'') True True)) = [3] \<and>
   listeners_of (run (GenerateThumbnail 1 # burst [(30, 2), (99, 3)] @ [Advance 100])
              (mount (Some ''v'') True True)) 0 = [(0, ''v:3'')] \<and>
   currentTime (videos (run (GenerateThumbnail 1 # burst [(30, 2), (99, 3)] @ [Advance 100])
              (mount (Some ''v'') True True)) ! 0) = 3 \<and>
   attempts (run (GenerateThumbnail 1 # burst [(101, 2), (150, 3)] @ [Advance 100])
              (mount (Some ''v'') True True)) = [1, 2, 3] \<and>
   listeners_of (run (GenerateThumbnail 1 # burst [(101, 2), (150, 3)] @ [Advance 100])
              (mount (Some ''v'') True True)) 0 = [(0, ''v:1''), (1, ''v:2''), (2, ''v:3'')] \<and>
   thumbnailUrl (run (GenerateThumbnail 7 # burst [(30, 1)] @ [Advance 100])
              (run [GenerateThumbnail 1, Advance 100, Seeked 0 (DataURL ''frame'')]
                 (mount (Some ''v'') True True))) = Some ''frame''"
proof -
  define m where "m = mount (Some ''v'') True True"
  define c where "c = run [GenerateThumbnail 1, Advance 100, Seeked 0 (DataURL ''frame'')] m"
  have h1: "ready m" "videoSrc m = Some ''v''" "timers m = []"
    unfolding m_def by code_simp+
  have h3: "DEBOUNCE_DELAY \<le> 100" by (simp add: DEBOUNCE_DELAY_def)
  have h4: "attempts m = []" "listeners_of m 0 = []" "nextCapture m = 0"
    "videoRef m = Some 0" "0 < length (videos m)"
    unfolding m_def by code_simp+
  have r: "\<forall>c \<in> set [(30::nat, 2::real), (99, 3)]. fst c < DEBOUNCE_DELAY"
    by (simp add: DEBOUNCE_DELAY_def)
  have s: "\<forall>c \<in> set [(101::nat, 2::real), (150, 3)]. DEBOUNCE_DELAY < fst c"
    by (simp add: DEBOUNCE_DELAY_def)
  have miss: "\<not> truthy (fst (cache_get (cacheRef m) (getCacheKey ''v'' 3)))"
    unfolding m_def by code_simp
  have none: "\<forall>t \<in> set [1, 2, 3 :: real]. \<not> cache_has (cacheRef m) (getCacheKey ''v'' t)"
    unfolding m_def by code_simp
  have k: "getCacheKey ''v'' 1 = ''v:1''" "getCacheKey ''v'' 2 = ''v:2''"
    "getCacheKey ''v'' 3 = ''v:3''" "roundTime 3 TIME_PRECISION = 3"
    by code_simp+
  have c1: "ready c" "videoSrc c = Some ''v''" "timers c = []"
    unfolding c_def m_def by code_simp+
  have c2: "truthy (fst (cache_get (cacheRef c) (getCacheKey ''v'' 1)))"
    "fst (cache_get (cacheRef c) (getCacheKey ''v'' 1)) = Some ''frame''"
    unfolding c_def m_def by code_simp+
  have rc: "\<forall>c \<in> set [(30::nat, 1::real)]. fst c < DEBOUNCE_DELAY"
    by (simp add: DEBOUNCE_DELAY_def)
  from debounce_one_attempt_per_burst[OF h1 h3 refl refl, where ?t0.0 = 1 and calls = "[(30, 2), (99, 3)]" and video = 0] r miss h4
  have "attempts (run (GenerateThumbnail 1 # burst [(30, 2), (99, 3)] @ [Advance 100]) m) = [3]"
    "listeners_of (run (GenerateThumbnail 1 # burst [(30, 2), (99, 3)] @ [Advance 100]) m) 0
       = [(0, ''v:3'')]"
    "currentTime (videos (run (GenerateThumbnail 1 # burst [(30, 2), (99, 3)] @ [Advance 100]) m) ! 0)
       = 3"
    by (simp_all add: k)
  moreover
  from debounce_one_attempt_per_burst[OF h1 h3 refl refl, where ?t0.0 = 1 and calls = "[(101, 2), (150, 3)]" and video = 0] s none h4
  have "attempts (run (GenerateThumbnail 1 # burst [(101, 2), (150, 3)] @ [Advance 100]) m)
          = [1, 2, 3]"
    "listeners_of (run (GenerateThumbnail 1 # burst [(101, 2), (150, 3)] @ [Advance 100]) m) 0
       = [(0, ''v:1''), (1, ''v:2''), (2, ''v:3'')]"
    by (simp_all add: k enumerate_eq_zip upt_rec)
  moreover
  from debounce_one_attempt_per_burst[OF c1 h3 refl refl, where ?t0.0 = 7 and calls = "[(30, 1)]" and video = 0] rc c2
  have "thumbnailUrl (run (GenerateThumbnail 7 # burst [(30, 1)] @ [Advance 100]) c) = Some ''frame''"
    by simp
  ultimately show ?thesis unfolding c_def m_def by simp
qed

lemma listeners_of_remove:
  "listeners_of (removeEventListeners vid cid st) v =
     (if v = vid then filter (\<lambda>l. fst l \<noteq> cid) (listeners_of st vid) else listeners_of st v)"
  by (simp add: removeEventListeners_def listeners_of_update_video) (simp add: listeners_of_def)

lemma listeners_of_handleSeeked:
  "listeners_of (handleSeeked vid cid key r st) v =
     (if v = vid then filter (\<lambda>l. fst l \<noteq> cid) (listeners_of st vid) else listeners_of st v)"
  unfolding handleSeeked_def Let_def listeners_of_remove
  by (simp add: listeners_of_def)

lemma listeners_of_handleError:
  "listeners_of (handleError vid cid st) v =
     (if v = vid then filter (\<lambda>l. fst l \<noteq> cid) (listeners_of st vid) else listeners_of st v)"
  unfolding handleError_def listeners_of_remove
  by (simp add: listeners_of_def)

lemma fold_handleSeeked_listeners:
  "listeners_of (fold (\<lambda>l s. handleSeeked vid (fst l) (snd l) r s) ls st) vid
     = filter (\<lambda>l. fst l \<notin> fst ` set ls) (listeners_of st vid)"
  by (induction ls arbitrary: st) (auto simp: listeners_of_handleSeeked intro: filter_cong)

lemma fold_handleError_listeners:
  "listeners_of (fold (\<lambda>l s. handleError vid (fst l) s) ls st) vid
     = filter (\<lambda>l. fst l \<notin> fst ` set ls) (listeners_of st vid)"
  by (induction ls arbitrary: st) (auto simp: listeners_of_handleError intro: filter_cong)

lemma dispatch_detaches_all:
  "listeners_of (dispatch_seeked vid r st) vid = []"
  "listeners_of (dispatch_error vid st) vid = []"
  by (simp_all add: dispatch_seeked_def dispatch_error_def fold_handleSeeked_listeners
        fold_handleError_listeners)

lemma map_of_map_set: "map_of (map_set m k v) k = Some v"
proof (cases "map_has m k")
  case True
  then have "k \<in> fst ` set m" by (simp add: map_has_def)
  then have "map_of (map (\<lambda>e. if fst e = k then (k, v) else e) m) k = Some v"
    by (induction m) auto
  with True show ?thesis by (simp add: map_set_def)
next
  case False
  then have "map_of m k = None" by (simp add: map_has_def map_of_eq_None_iff)
  with False show ?thesis by (simp add: map_set_def map_add_def)
qed

lemma map_get_cache_set: "map_get (cache (cache_set c k v)) k = Some v"
  by (simp add: cache_set_def Let_def map_get_def map_of_map_set split: list.splits)

lemma handleSeeked_success:
  assumes "truthy (captureThumbnail st r)"
  shows "map_get (cache (cacheRef (handleSeeked vid cid key r st))) key = captureThumbnail st r"
    and "thumbnailUrl (handleSeeked vid cid key r st) = captureThumbnail st r"
proof -
  from assms obtain u where u: "captureThumbnail st r = Some u"
    by (auto simp: truthy_def split: option.splits)
  show "map_get (cache (cacheRef (handleSeeked vid cid key r st))) key = captureThumbnail st r"
    using assms by (simp add: handleSeeked_def removeEventListeners_def Let_def u map_get_cache_set)
  show "thumbnailUrl (handleSeeked vid cid key r st) = captureThumbnail st r"
    using assms by (simp add: handleSeeked_def removeEventListeners_def Let_def)
qed

text \<open>
  Claim C4 says that a new request abandons the capture in flight by detaching its
  listeners. After a capture for time 1 has started and a capture for time 5 starts, the
  listeners of the first are still attached; the \<open>seeked\<close> event that follows runs its
  handler, which stores the frame of that moment under the key of time 1.
\<close>

theorem superseded_capture_counterexample:
  "listeners_of (run [GenerateThumbnail 1, Advance 100, GenerateThumbnail 5, Advance 100]
                   (mount (Some ''v'') True True)) 0 = [(0, ''v:1''), (1, ''v:5'')] \<and>
   map_get (cache (cacheRef
      (run [GenerateThumbnail 1, Advance 100, GenerateThumbnail 5, Advance 100,
            Seeked 0 (DataURL ''frame'')]
         (mount (Some ''v'') True True)))) ''v:1'' = Some ''frame''"
  by code_simp

text \<open>
  Claim C4, amended. A request that arrives while a capture is in flight does not
  abandon it. When the timeout callback of the new request misses the cache, it appends
  its listeners after the ones attached; when it finds its thumbnail in the cache, it
  makes that the thumbnail and leaves every element, with its listeners, as it was.
  When the element then fires \<open>seeked\<close>, the handlers of the captures in flight run in
  the order of attachment: with one capture in flight its handler, with two the
  earlier one first. A handler that gets an image stores it under its own cache key
  and makes it the thumbnail. After a \<open>seeked\<close> or an \<open>error\<close> event no listener is
  attached to the element.
\<close>

theorem superseded_capture_still_runs:
  "(pendingTimeRef st = Some t \<and> videoRef st = Some video \<and> video < length (videos st) \<and>
    \<not> truthy (fst (cache_get (cacheRef st) (getCacheKey vs t))) \<longrightarrow>
      listeners_of (timeoutCallback vs st) video
        = listeners_of st video @ [(nextCapture st, getCacheKey vs t)]) \<and>
   (pendingTimeRef st = Some t \<and> truthy (fst (cache_get (cacheRef st) (getCacheKey vs t))) \<longrightarrow>
      videos (timeoutCallback vs st) = videos st \<and>
      thumbnailUrl (timeoutCallback vs st) = fst (cache_get (cacheRef st) (getCacheKey vs t))) \<and>
   (listeners_of st vid = [(c1, k1)] \<longrightarrow>
      dispatch_seeked vid r st = handleSeeked vid c1 k1 r st) \<and>
   (listeners_of st vid = [(c1, k1), (c2, k2)] \<longrightarrow>
      dispatch_seeked vid r st = handleSeeked vid c2 k2 r (handleSeeked vid c1 k1 r st)) \<and>
   (truthy (captureThumbnail st r) \<longrightarrow>
      map_get (cache (cacheRef (handleSeeked vid cid key r st))) key = captureThumbnail st r \<and>
      thumbnailUrl (handleSeeked vid cid key r st) = captureThumbnail st r) \<and>
   listeners_of (dispatch_seeked vid r st) vid = [] \<and>
   listeners_of (dispatch_error vid st) vid = []"
  by (simp add: timeoutCallback_miss(1) timeoutCallback_hit handleSeeked_success
        dispatch_detaches_all)
     (simp add: dispatch_seeked_def)

theorem superseded_capture_still_runs_witness:
  "listeners_of (timeoutCallback ''v''
       (run [GenerateThumbnail 1, Advance 100, GenerateThumbnail 5] (mount (Some ''v'') True True))) 0
     = [(0, ''v:1''), (1, ''v:5'')] \<and>
   dispatch_seeked 0 (DataURL ''frame'')
       (run [GenerateThumbnail 1, Advance 100, GenerateThumbnail 5, Advance 100]
          (mount (Some ''v'') True True))
     = handleSeeked 0 1 ''v:5'' (DataURL ''frame'')
         (handleSeeked 0 0 ''v:1'' (DataURL ''frame'')
            (run [GenerateThumbnail 1, Advance 100, GenerateThumbnail 5, Advance 100]
               (mount (Some ''v'') True True))) \<and>
   thumbnailUrl (handleSeeked 0 0 ''v:1'' (DataURL ''frame'')
       (run [GenerateThumbnail 1, Advance 100, GenerateThumbnail 5, Advance 100]
          (mount (Some ''v'') True True))) = Some ''frame'' \<and>
   thumbnailUrl (timeoutCallback ''v''
       (run [GenerateThumbnail 1, Advance 100, Seeked 0 (DataURL ''first''),
             GenerateThumbnail 5, Advance 100, GenerateThumbnail 1]
          (mount (Some ''v'') True True))) = Some ''first'' \<and>
   dispatch_seeked 0 (DataURL ''late'')
       (run [GenerateThumbnail 1, Advance 100, Seeked 0 (DataURL ''first''),
             GenerateThumbnail 5, Advance 100, GenerateThumbnail 1, Advance 100]
          (mount (Some ''v'') True True))
     = handleSeeked 0 1 ''v:5'' (DataURL ''late'')
         (run [GenerateThumbnail 1, Advance 100, Seeked 0 (DataURL ''first''),
               GenerateThumbnail 5, Advance 100, GenerateThumbnail 1, Advance 100]
            (mount (Some ''v'') True True)) \<and>
   thumbnailUrl (handleSeeked 0 1 ''v:5'' (DataURL ''late'')
       (run [GenerateThumbnail 1, Advance 100, Seeked 0 (DataURL ''first''),
             GenerateThumbnail 5, Advance 100, GenerateThumbnail 1, Advance 100]
          (mount (Some ''v'') True True))) = Some ''late''"
proof -
  define s1 where "s1 = run [GenerateThumbnail 1, Advance 100, GenerateThumbnail 5]
                          (mount (Some ''v'') True True)"
  define s2 where "s2 = run [GenerateThumbnail 1, Advance 100, GenerateThumbnail 5, Advance 100]
                          (mount (Some ''v'') True True)"
  define s3 where "s3 = run [GenerateThumbnail 1, Advance 100, Seeked 0 (DataURL ''first''),
                             GenerateThumbnail 5, Advance 100, GenerateThumbnail 1]
                          (mount (Some ''v'') True True)"
  define s4 where "s4 = run [GenerateThumbnail 1, Advance 100, Seeked 0 (DataURL ''first''),
                             GenerateThumbnail 5, Advance 100, GenerateThumbnail 1, Advance 100]
                          (mount (Some ''v'') True True)"
  have a: "pendingTimeRef s1 = Some 5 \<and> videoRef s1 = Some 0 \<and> 0 < length (videos s1) \<and>
           \<not> truthy (fst (cache_get (cacheRef s1) (getCacheKey ''v'' 5)))"
    unfolding s1_def by code_simp
  have b: "listeners_of s1 0 @ [(nextCapture s1, getCacheKey ''v'' 5)] = [(0, ''v:1''), (1, ''v:5'')]"
    unfolding s1_def by code_simp
  have c: "listeners_of s2 0 = [(0, ''v:1''), (1, ''v:5'')]"
    unfolding s2_def by code_simp
  have d1: "truthy (captureThumbnail s2 (DataURL ''frame''))"
    unfolding s2_def by code_simp
  have d2: "captureThumbnail s2 (DataURL ''frame'') = Some ''frame''"
    unfolding s2_def by code_simp
  have e: "pendingTimeRef s3 = Some 1 \<and>
           truthy (fst (cache_get (cacheRef s3) (getCacheKey ''v'' 1)))"
    unfolding s3_def by code_simp
  have e2: "fst (cache_get (cacheRef s3) (getCacheKey ''v'' 1)) = Some ''first''"
    unfolding s3_def by code_simp
  have f: "listeners_of s4 0 = [(1, ''v:5'')]"
    unfolding s4_def by code_simp
  have g1: "truthy (captureThumbnail s4 (DataURL ''late''))"
    unfolding s4_def by code_simp
  have g2: "captureThumbnail s4 (DataURL ''late'') = Some ''late''"
    unfolding s4_def by code_simp
  from superseded_capture_still_runs[where st = s1 and t = 5 and video = 0 and vs = "''v''"] a b
  have "listeners_of (timeoutCallback ''v'' s1) 0 = [(0, ''v:1''), (1, ''v:5'')]"
    by simp
  moreover
  from superseded_capture_still_runs[where st = s2 and vid = 0 and ?c1.0 = 0 and ?k1.0 = "''v:1''"
      and ?c2.0 = 1 and ?k2.0 = "''v:5''" and r = "DataURL ''frame''" and cid = 0
      and key = "''v:1''"] c d1
  have "dispatch_seeked 0 (DataURL ''frame'') s2
          = handleSeeked 0 1 ''v:5'' (DataURL ''frame'') (handleSeeked 0 0 ''v:1'' (DataURL ''frame'') s2)"
    and "thumbnailUrl (handleSeeked 0 0 ''v:1'' (DataURL ''frame'') s2)
          = captureThumbnail s2 (DataURL ''frame'')"
    by blast+
  moreover
  from superseded_capture_still_runs[where st = s3 and t = 1 and vs = "''v''"] e
  have "thumbnailUrl (timeoutCallback ''v'' s3) = fst (cache_get (cacheRef s3) (getCacheKey ''v'' 1))"
    by blast
  moreover
  from superseded_capture_still_runs[where st = s4 and vid = 0 and ?c1.0 = 1 and ?k1.0 = "''v:5''"
      and r = "DataURL ''late''" and cid = 1 and key = "''v:5''"] f g1
  have "dispatch_seeked 0 (DataURL ''late'') s4 = handleSeeked 0 1 ''v:5'' (DataURL ''late'') s4"
    and "thumbnailUrl (handleSeeked 0 1 ''v:5'' (DataURL ''late'') s4)
          = captureThumbnail s4 (DataURL ''late'')"
    by blast+
  ultimately show ?thesis unfolding d2 e2 g2 unfolding s1_def s2_def s3_def s4_def by simp
qed

lemma cache_clear_empty: "cache (cache_clear c) = []"
  by (simp add: cache_clear_def)

lemma effect2_source_change:
  assumes "videoRef st = Some video" "truthy (videoSrc st)" "enabled st"
    and "currentVideoSrcRef st \<noteq> videoSrc st"
  shows "cache (cacheRef (effect2 st)) = []"
    and "thumbnailUrl (effect2 st) = None"
    and "error (effect2 st) = None"
    and "currentVideoSrcRef (effect2 st) = videoSrc st"
    and "listeners_of (effect2 st) v = listeners_of st v"
    and "timers (effect2 st) = timers st"
  using assms
  by (simp_all add: effect2_def cache_clear_empty listeners_of_def update_video_def nth_list_update)

lemma cleanup1_effect:
  shows "cache (cacheRef (cleanup1 st)) = []"
    and "videoRef (cleanup1 st) = None"
    and "\<not> canvasRef (cleanup1 st)"
    and "listeners_of (cleanup1 st) v = listeners_of st v"
    and "debounceTimeoutRef st = Some h \<Longrightarrow> \<forall>t \<in> set (timers (cleanup1 st)). fst t \<noteq> h"
  by (auto simp: cleanup1_def Let_def cache_clear_empty clearTimeout_def listeners_of_def
        update_video_def nth_list_update split: option.splits)


lemma render_source_change:
  assumes "enabled st" "videoRef st = Some video" "truthy vs" "vs \<noteq> videoSrc st"
    and "currentVideoSrcRef st \<noteq> vs"
  shows "cache (cacheRef (render vs True st)) = []"
    and "thumbnailUrl (render vs True st) = None"
    and "error (render vs True st) = None"
    and "listeners_of (render vs True st) v = listeners_of st v"
proof -
  define st1 where "st1 = st\<lparr>videoSrc := vs, enabled := True\<rparr>"
  have r: "render vs True st = effect2 st1"
    using assms(1,4) by (simp add: render_def st1_def Let_def)
  have h: "videoRef st1 = Some video" "truthy (videoSrc st1)" "enabled st1"
    "currentVideoSrcRef st1 \<noteq> videoSrc st1"
    using assms by (simp_all add: st1_def)
  have l: "listeners_of st1 v = listeners_of st v" by (simp add: st1_def listeners_of_def)
  show "cache (cacheRef (render vs True st)) = []"
    and "thumbnailUrl (render vs True st) = None"
    and "error (render vs True st) = None"
    and "listeners_of (render vs True st) v = listeners_of st v"
    unfolding r using effect2_source_change[OF h] l by simp_all
qed

lemma unmount_effect:
  assumes "cleanupSet st"
  shows "cache (cacheRef (unmount st)) = []"
    and "videoRef (unmount st) = None"
    and "listeners_of (unmount st) v = listeners_of st v"
    and "debounceTimeoutRef st = Some h \<Longrightarrow> \<forall>t \<in> set (timers (unmount st)). fst t \<noteq> h"
proof -
  have u: "unmount st = (cleanup1 st)\<lparr>cleanupSet := False\<rparr>"
    using assms by (simp add: unmount_def)
  have l: "listeners_of (unmount st) v = listeners_of (cleanup1 st) v"
    unfolding u by (simp add: listeners_of_def)
  show "cache (cacheRef (unmount st)) = []" by (simp add: u cleanup1_effect(1))
  show "videoRef (unmount st) = None" by (simp add: u cleanup1_effect(2))
  show "listeners_of (unmount st) v = listeners_of st v" by (simp add: l cleanup1_effect(4))
  show "debounceTimeoutRef st = Some h \<Longrightarrow> \<forall>t \<in> set (timers (unmount st)). fst t \<noteq> h"
    using cleanup1_effect(5)[of st h] by (simp add: u)
qed

lemma render_disable:
  assumes "cleanupSet st" "enabled st"
  shows "cache (cacheRef (render vs False st)) = []"
    and "videoRef (render vs False st) = None"
    and "listeners_of (render vs False st) v = listeners_of st v"
    and "debounceTimeoutRef st = Some h \<Longrightarrow> \<forall>t \<in> set (timers (render vs False st)). fst t \<noteq> h"
proof -
  define st1 where "st1 = st\<lparr>videoSrc := vs, enabled := False\<rparr>"
  have e1: "effect1 (cleanup1 st1) = (cleanup1 st1)\<lparr>cleanupSet := False\<rparr>"
    by (simp add: effect1_def st1_def cleanup1_def Let_def clearTimeout_def split: option.splits)
  have cs: "cleanupSet st1" using assms(1) by (simp add: st1_def)
  have e2: "effect2 ((cleanup1 st1)\<lparr>cleanupSet := False\<rparr>) = (cleanup1 st1)\<lparr>cleanupSet := False\<rparr>"
    by (simp add: effect2_def cleanup1_effect(2))
  have r: "render vs False st = (cleanup1 st1)\<lparr>cleanupSet := False\<rparr>"
    using assms(2) cs by (simp add: render_def Let_def st1_def[symmetric] e1 e2)
  have l: "listeners_of st1 v = listeners_of st v" by (simp add: st1_def listeners_of_def)
  have l2: "listeners_of (render vs False st) v = listeners_of (cleanup1 st1) v"
    unfolding r by (simp add: listeners_of_def)
  have d: "debounceTimeoutRef st1 = debounceTimeoutRef st" by (simp add: st1_def)
  show "cache (cacheRef (render vs False st)) = []" by (simp add: r cleanup1_effect(1))
  show "videoRef (render vs False st) = None" by (simp add: r cleanup1_effect(2))
  show "listeners_of (render vs False st) v = listeners_of st v"
    by (simp add: l2 l cleanup1_effect(4))
  show "debounceTimeoutRef st = Some h \<Longrightarrow> \<forall>t \<in> set (timers (render vs False st)). fst t \<noteq> h"
    using cleanup1_effect(5)[of st1 h] d by (simp add: r)
qed

lemma effect2_refs:
  "videoRef (effect2 st) = videoRef st" "canvasRef (effect2 st) = canvasRef st"
  by (simp_all add: effect2_def split: option.splits)

lemma render_source_change_refs:
  assumes "enabled st" "vs \<noteq> videoSrc st"
  shows "videoRef (render vs True st) = videoRef st" "canvasRef (render vs True st) = canvasRef st"
  using assms by (simp_all add: render_def Let_def effect2_refs)

lemma unmount_canvas: "cleanupSet st \<Longrightarrow> \<not> canvasRef (unmount st)"
  by (simp add: unmount_def cleanup1_effect(3))

lemma render_disable_canvas:
  assumes "cleanupSet st" "enabled st"
  shows "\<not> canvasRef (render vs False st)"
proof -
  define st1 where "st1 = st\<lparr>videoSrc := vs, enabled := False\<rparr>"
  have cs: "cleanupSet st1" using assms(1) by (simp add: st1_def)
  have e1: "effect1 (cleanup1 st1) = (cleanup1 st1)\<lparr>cleanupSet := False\<rparr>"
    by (simp add: effect1_def st1_def cleanup1_def Let_def clearTimeout_def split: option.splits)
  have "render vs False st = effect2 ((cleanup1 st1)\<lparr>cleanupSet := False\<rparr>)"
    using assms(2) cs by (simp add: render_def Let_def st1_def[symmetric] e1)
  then show ?thesis by (simp add: effect2_refs cleanup1_effect(3))
qed

lemma handleSeeked_after_teardown:
  assumes "videoRef st = None" "cache (cacheRef st) = []"
  shows "cache (cacheRef (handleSeeked vid cid key r st)) = []"
    and "error (handleSeeked vid cid key r st) = Some ''Failed to capture thumbnail''"
    and "thumbnailUrl (handleSeeked vid cid key r st) = None"
proof -
  have "\<not> truthy (captureThumbnail st r)" using assms(1) by (simp add: captureThumbnail_def truthy_def)
  from handleSeeked_failure[OF this] assms(2)
  show "cache (cacheRef (handleSeeked vid cid key r st)) = []"
    and "error (handleSeeked vid cid key r st) = Some ''Failed to capture thumbnail''"
    and "thumbnailUrl (handleSeeked vid cid key r st) = None"
    by simp_all
qed

lemma handleSeeked_after_source_change:
  assumes "videoRef st = Some video" "canvasRef st" "u \<noteq> []"
  shows "map_get (cache (cacheRef (handleSeeked vid cid key (DataURL u) st))) key = Some u"
    and "thumbnailUrl (handleSeeked vid cid key (DataURL u) st) = Some u"
proof -
  have c: "captureThumbnail st (DataURL u) = Some u" using assms by (simp add: captureThumbnail_def)
  then have "truthy (captureThumbnail st (DataURL u))" using assms(3) by (simp add: truthy_def)
  from handleSeeked_success[OF this] c
  show "map_get (cache (cacheRef (handleSeeked vid cid key (DataURL u) st))) key = Some u"
    and "thumbnailUrl (handleSeeked vid cid key (DataURL u) st) = Some u"
    by simp_all
qed

text \<open>
  Claim C5 says that a source change detaches the callbacks of the capture in flight,
  so that no capture started under the old source writes afterwards. After the source
  changes from \<open>v\<close> to \<open>w\<close> the cache is empty, yet the listeners of the capture for \<open>v\<close>
  are still attached; the next \<open>seeked\<close> event runs them, and the cache then holds an
  entry under a key of the old source.
\<close>

theorem source_change_counterexample:
  "listeners_of (run [GenerateThumbnail 1, Advance 100, Render (Some ''w'') True]
                   (mount (Some ''v'') True True)) 0 = [(0, ''v:1'')] \<and>
   cache (cacheRef (run [GenerateThumbnail 1, Advance 100, Render (Some ''w'') True]
                   (mount (Some ''v'') True True))) = [] \<and>
   cache (cacheRef
      (run [GenerateThumbnail 1, Advance 100, Render (Some ''w'') True,
            GenerateThumbnail 2, Advance 100, Seeked 0 (DataURL ''frame'')]
         (mount (Some ''v'') True True))) = [(''v:1'', ''frame''), (''w:2'', ''frame'')]"
  by code_simp

text \<open>
  Claim C5, amended. When a render brings a new, non-empty source to an enabled hook,
  the cache is emptied and \<open>thumbnailUrl\<close> and \<open>error\<close> are set to null. When the hook is
  torn down (unmounted, or rendered with \<open>enabled\<close> false), the cache is emptied, the
  video element and the canvas are dropped and the timeout that \<open>debounceTimeoutRef\<close>
  holds is no longer pending. In all three cases the listeners attached to every video
  element stay as they were. After the source change a \<open>seeked\<close> handler that is still
  attached and reads an image stores it under its own, old key and makes it the
  thumbnail; after a teardown such a handler reads no image: the cache stays empty,
  \<open>error\<close> is set and \<open>thumbnailUrl\<close> is null.
\<close>

theorem source_change_and_teardown:
  "(enabled st \<and> videoRef st = Some video \<and> truthy vs \<and> vs \<noteq> videoSrc st \<and>
    currentVideoSrcRef st \<noteq> vs \<longrightarrow>
      cache (cacheRef (render vs True st)) = [] \<and>
      thumbnailUrl (render vs True st) = None \<and>
      error (render vs True st) = None \<and>
      listeners_of (render vs True st) v = listeners_of st v \<and>
      (canvasRef st \<and> u \<noteq> [] \<longrightarrow>
         map_get (cache (cacheRef (handleSeeked vid cid key (DataURL u) (render vs True st)))) key
           = Some u \<and>
         thumbnailUrl (handleSeeked vid cid key (DataURL u) (render vs True st)) = Some u)) \<and>
   (cleanupSet st \<longrightarrow>
      cache (cacheRef (unmount st)) = [] \<and>
      videoRef (unmount st) = None \<and>
      \<not> canvasRef (unmount st) \<and>
      (debounceTimeoutRef st = Some h \<longrightarrow> (\<forall>t \<in> set (timers (unmount st)). fst t \<noteq> h)) \<and>
      listeners_of (unmount st) v = listeners_of st v \<and>
      cache (cacheRef (handleSeeked vid cid key r (unmount st))) = [] \<and>
      error (handleSeeked vid cid key r (unmount st)) = Some ''Failed to capture thumbnail'' \<and>
      thumbnailUrl (handleSeeked vid cid key r (unmount st)) = None) \<and>
   (cleanupSet st \<and> enabled st \<longrightarrow>
      cache (cacheRef (render vs False st)) = [] \<and>
      videoRef (render vs False st) = None \<and>
      \<not> canvasRef (render vs False st) \<and>
      (debounceTimeoutRef st = Some h \<longrightarrow>
         (\<forall>t \<in> set (timers (render vs False st)). fst t \<noteq> h)) \<and>
      listeners_of (render vs False st) v = listeners_of st v \<and>
      cache (cacheRef (handleSeeked vid cid key r (render vs False st))) = [] \<and>
      error (handleSeeked vid cid key r (render vs False st)) = Some ''Failed to capture thumbnail'' \<and>
      thumbnailUrl (handleSeeked vid cid key r (render vs False st)) = None)"
proof -
  have A: "cache (cacheRef (render vs True st)) = [] \<and>
      thumbnailUrl (render vs True st) = None \<and>
      error (render vs True st) = None \<and>
      listeners_of (render vs True st) v = listeners_of st v \<and>
      (canvasRef st \<and> u \<noteq> [] \<longrightarrow>
         map_get (cache (cacheRef (handleSeeked vid cid key (DataURL u) (render vs True st)))) key
           = Some u \<and>
         thumbnailUrl (handleSeeked vid cid key (DataURL u) (render vs True st)) = Some u)"
    if h: "enabled st" "videoRef st = Some video" "truthy vs" "vs \<noteq> videoSrc st"
      "currentVideoSrcRef st \<noteq> vs"
  proof -
    note r = render_source_change[OF h]
    note refs = render_source_change_refs[OF h(1,4)]
    have "map_get (cache (cacheRef (handleSeeked vid cid key (DataURL u) (render vs True st)))) key
           = Some u \<and>
         thumbnailUrl (handleSeeked vid cid key (DataURL u) (render vs True st)) = Some u"
      if "canvasRef st" "u \<noteq> []"
      using handleSeeked_after_source_change[of "render vs True st" video u vid cid key] that h(2)
      by (simp add: refs)
    then show ?thesis using r by simp
  qed
  have B: "cache (cacheRef (unmount st)) = [] \<and>
      videoRef (unmount st) = None \<and>
      \<not> canvasRef (unmount st) \<and>
      (debounceTimeoutRef st = Some h \<longrightarrow> (\<forall>t \<in> set (timers (unmount st)). fst t \<noteq> h)) \<and>
      listeners_of (unmount st) v = listeners_of st v \<and>
      cache (cacheRef (handleSeeked vid cid key r (unmount st))) = [] \<and>
      error (handleSeeked vid cid key r (unmount st)) = Some ''Failed to capture thumbnail'' \<and>
      thumbnailUrl (handleSeeked vid cid key r (unmount st)) = None"
    if c: "cleanupSet st"
    using unmount_effect(4)[OF c, of h] unmount_effect(1-3)[OF c] unmount_canvas[OF c]
      handleSeeked_after_teardown[OF unmount_effect(2)[OF c] unmount_effect(1)[OF c]]
    by simp
  have C: "cache (cacheRef (render vs False st)) = [] \<and>
      videoRef (render vs False st) = None \<and>
      \<not> canvasRef (render vs False st) \<and>
      (debounceTimeoutRef st = Some h \<longrightarrow>
         (\<forall>t \<in> set (timers (render vs False st)). fst t \<noteq> h)) \<and>
      listeners_of (render vs False st) v = listeners_of st v \<and>
      cache (cacheRef (handleSeeked vid cid key r (render vs False st))) = [] \<and>
      error (handleSeeked vid cid key r (render vs False st)) = Some ''Failed to capture thumbnail'' \<and>
      thumbnailUrl (handleSeeked vid cid key r (render vs False st)) = None"
    if c: "cleanupSet st" "enabled st"
    using render_disable(4)[OF c, of h vs] render_disable(1-3)[OF c] render_disable_canvas[OF c]
      handleSeeked_after_teardown[OF render_disable(2)[OF c] render_disable(1)[OF c]]
    by simp
  have A': "enabled st \<and> videoRef st = Some video \<and> truthy vs \<and> vs \<noteq> videoSrc st \<and>
    currentVideoSrcRef st \<noteq> vs \<longrightarrow>
      cache (cacheRef (render vs True st)) = [] \<and>
      thumbnailUrl (render vs True st) = None \<and>
      error (render vs True st) = None \<and>
      listeners_of (render vs True st) v = listeners_of st v \<and>
      (canvasRef st \<and> u \<noteq> [] \<longrightarrow>
         map_get (cache (cacheRef (handleSeeked vid cid key (DataURL u) (render vs True st)))) key
           = Some u \<and>
         thumbnailUrl (handleSeeked vid cid key (DataURL u) (render vs True st)) = Some u)"
    by (intro impI, elim conjE, rule A)
  have C': "cleanupSet st \<and> enabled st \<longrightarrow>
      cache (cacheRef (render vs False st)) = [] \<and>
      videoRef (render vs False st) = None \<and>
      \<not> canvasRef (render vs False st) \<and>
      (debounceTimeoutRef st = Some h \<longrightarrow>
         (\<forall>t \<in> set (timers (render vs False st)). fst t \<noteq> h)) \<and>
      listeners_of (render vs False st) v = listeners_of st v \<and>
      cache (cacheRef (handleSeeked vid cid key r (render vs False st))) = [] \<and>
      error (handleSeeked vid cid key r (render vs False st)) = Some ''Failed to capture thumbnail'' \<and>
      thumbnailUrl (handleSeeked vid cid key r (render vs False st)) = None"
    by (intro impI, elim conjE, rule C)
  show ?thesis
    by (intro conjI) (rule A', rule impI, rule B, assumption, rule C')
qed

theorem source_change_and_teardown_witness:
  "listeners_of (render (Some ''w'') True
      (run [GenerateThumbnail 1, Advance 100, GenerateThumbnail 2] (mount (Some ''v'') True True))) 0
     = [(0, ''v:1'')] \<and>
   map_get (cache (cacheRef (handleSeeked 0 0 ''v:1'' (DataURL ''frame'') (render (Some ''w'') True
      (run [GenerateThumbnail 1, Advance 100, GenerateThumbnail 2] (mount (Some ''v'') True True))))))
      ''v:1'' = Some ''frame'' \<and>
   cache (cacheRef (unmount
      (run [GenerateThumbnail 1, Advance 100, GenerateThumbnail 2] (mount (Some ''v'') True True))))
     = [] \<and>
   error (handleSeeked 0 0 ''v:1'' (DataURL ''frame'') (unmount
      (run [GenerateThumbnail 1, Advance 100, GenerateThumbnail 2] (mount (Some ''v'') True True))))
     = Some ''Failed to capture thumbnail'' \<and>
   (2, 200, ''v'') \<in> set (timers
      (run [GenerateThumbnail 1, Advance 100, GenerateThumbnail 2] (mount (Some ''v'') True True))) \<and>
   (2, 200, ''v'') \<notin> set (timers (render (Some ''v'') False
      (run [GenerateThumbnail 1, Advance 100, GenerateThumbnail 2] (mount (Some ''v'') True True))))"
proof -
  define s where "s = run [GenerateThumbnail 1, Advance 100, GenerateThumbnail 2]
                        (mount (Some ''v'') True True)"
  have a: "enabled s \<and> videoRef s = Some 0 \<and> truthy (Some ''w'') \<and> Some ''w'' \<noteq> videoSrc s \<and>
           currentVideoSrcRef s \<noteq> Some ''w''"
    unfolding s_def by code_simp
  have a2: "canvasRef s \<and> ''frame'' \<noteq> []" unfolding s_def by code_simp
  have b: "cleanupSet s" unfolding s_def by code_simp
  have c: "listeners_of s 0 = [(0, ''v:1'')]" unfolding s_def by code_simp
  have d: "debounceTimeoutRef s = Some 2" unfolding s_def by code_simp
  note T = source_change_and_teardown[where st = s and video = 0 and v = 0 and h = 2
      and u = "''frame''" and vid = 0 and cid = 0 and key = "''v:1''" and r = "DataURL ''frame''"]
  from T[where vs = "Some ''w''"] a c
  have "listeners_of (render (Some ''w'') True s) 0 = [(0, ''v:1'')]" by simp
  moreover from T[where vs = "Some ''w''"] a a2
  have "map_get (cache (cacheRef (handleSeeked 0 0 ''v:1'' (DataURL ''frame'')
          (render (Some ''w'') True s)))) ''v:1'' = Some ''frame''" by blast
  moreover from T[where vs = "Some ''w''"] b
  have "cache (cacheRef (unmount s)) = []"
    and "error (handleSeeked 0 0 ''v:1'' (DataURL ''frame'') (unmount s))
           = Some ''Failed to capture thumbnail''" by blast+
  moreover from T[where vs = "Some ''v''"] a b d
  have "(2, 200, ''v'') \<notin> set (timers (render (Some ''v'') False s))" by fastforce
  moreover have "(2, 200, ''v'') \<in> set (timers s)" unfolding s_def by code_simp
  ultimately show ?thesis unfolding s_def by simp
qed

end
